theory Spec2Isabelle
  imports Complex_Main
begin

section \<open>Strings of the host language\<close>

text \<open>
  A string of the source is a sequence of code units, and \<open>length\<close>, indexing and
  \<open>indexOf\<close> all count code units. One \<^typ>\<open>char\<close> stands for one code unit.
  \<open>String.prototype.toLowerCase\<close> belongs to the host, not to the repository: it may
  map one unit to several and may look at the neighbours of a unit. It is a parameter
  \<open>lc\<close> of everything that calls it, and nothing is assumed of it except where a
  statement says so.
\<close>

text \<open>The class \<open>\s\<close> of the regular expressions, on the units a \<^typ>\<open>char\<close> has.\<close>

definition isSpace :: "char \<Rightarrow> bool" where
  "isSpace c =
     (c \<in> {CHR 0x09, CHR 0x0A, CHR 0x0B, CHR 0x0C, CHR 0x0D, CHR 0x20, CHR 0xA0})"

text \<open>The class \<open>[a-zA-Z0-9]\<close>.\<close>

definition isAlnum :: "char \<Rightarrow> bool" where
  "isAlnum c =
     (c \<in> set ''abcdefghijklmnopqrstuvwxyzABCDEFGHIJKLMNOPQRSTUVWXYZ0123456789'')"

text \<open>\<open>q\<close> occurs in \<open>t\<close> at offset \<open>k\<close>.\<close>

definition occursAt :: "string \<Rightarrow> string \<Rightarrow> nat \<Rightarrow> bool" where
  "occursAt t q k = (k + length q \<le> length t \<and> take (length q) (drop k t) = q)"

text \<open>
  \<open>t.indexOf(q, pos)\<close>: the position is clamped to \<open>[0, t.length]\<close>, the result is the
  least offset from there at which \<open>q\<close> occurs, and \<open>-1\<close> when there is none. For the
  empty \<open>q\<close> this is the clamped position itself.
\<close>

definition indexOf :: "string \<Rightarrow> string \<Rightarrow> int \<Rightarrow> int" where
  "indexOf t q pos =
     (case find (occursAt t q) [min (nat pos) (length t) ..< Suc (length t)] of
        None \<Rightarrow> - 1
      | Some k \<Rightarrow> int k)"

definition includes_s :: "string \<Rightarrow> string \<Rightarrow> bool" where
  "includes_s t q = (indexOf t q 0 \<noteq> - 1)"

definition startsWith :: "string \<Rightarrow> string \<Rightarrow> bool" where
  "startsWith s p = occursAt s p 0"

text \<open>\<open>xs.join(sep)\<close>.\<close>

fun join :: "string \<Rightarrow> string list \<Rightarrow> string" where
  "join sep [] = []"
| "join sep [x] = x"
| "join sep (x # y # ys) = x @ sep @ join sep (y # ys)"

text \<open>
  \<open>s[i]\<close> on a string: the one-unit string at \<open>i\<close>, and \<open>undefined\<close> (here
  \<open>None\<close>) out of range. String concatenation writes \<open>undefined\<close> out as text.
\<close>

definition unitAt :: "string \<Rightarrow> nat \<Rightarrow> string option" where
  "unitAt s i = (if i < length s then Some [s ! i] else None)"

definition strOf :: "string option \<Rightarrow> string" where
  "strOf v = (case v of None \<Rightarrow> ''undefined'' | Some s \<Rightarrow> s)"

text \<open>
  \<open>s.split(/\s+/)\<close>: the pieces between the maximal runs of white space. A run at the
  start or at the end leaves an empty piece there, and the empty string gives one empty
  piece.
\<close>

function splitLoop :: "string \<Rightarrow> string \<Rightarrow> string list" where
  "splitLoop [] cur = [cur]"
| "splitLoop (c # cs) cur =
     (if isSpace c then cur # splitLoop (dropWhile isSpace cs) []
      else splitLoop cs (cur @ [c]))"
  by pat_completeness auto
termination
  by (relation "measure (\<lambda>(s, cur). length s)")
     (auto simp: le_imp_less_Suc length_dropWhile_le)

definition split_ws :: "string \<Rightarrow> string list" where
  "split_ws s = splitLoop s []"

section \<open>The pinyin search\<close>

text \<open>
  The romanizer is a library outside the repository; it is a parameter \<open>py\<close> of
  everything below, giving the syllables of a text, or \<open>None\<close> when it throws.
  \<open>getPinyin\<close> catches that and answers with the empty array.
\<close>

datatype matchType =
  Direct | Pinyin | Initials | PartialPinyin | PartialInitials | Enhanced | NoMatch

record PinyinMatchResult =
  matched :: bool
  type_m :: matchType
  pinyin_m :: "string option"
  originalText :: string
  matchedIndices :: "int list"

definition getPinyin :: "(string \<Rightarrow> string list option) \<Rightarrow> string \<Rightarrow> string list" where
  "getPinyin py text = (case py text of None \<Rightarrow> [] | Some result \<Rightarrow> result)"

definition getPinyinInitials ::
  "(string \<Rightarrow> string list option) \<Rightarrow> (string \<Rightarrow> string) \<Rightarrow> string \<Rightarrow> string" where
  "getPinyinInitials py lc text =
     join [] (map (\<lambda>p. lc (take 1 p)) (getPinyin py text))"

text \<open>
  The loop \<open>while (index !== -1) { body; index = t.indexOf(q, index + 1) }\<close>, which
  the source has three times with different bodies. With an empty \<open>q\<close> the index
  stops at \<open>t.length\<close> and never becomes \<open>-1\<close>: the loop may not return, and the
  result is an option, \<open>None\<close> for a run that does not end.
\<close>

partial_function (option) indexLoop ::
  "(int \<Rightarrow> 'a \<Rightarrow> 'a) \<Rightarrow> string \<Rightarrow> string \<Rightarrow> int \<Rightarrow> 'a \<Rightarrow> 'a option" where
  "indexLoop body t q index acc =
     (if index = - 1 then Some acc
      else indexLoop body t q (indexOf t q (index + 1)) (body index acc))"

declare indexLoop.simps [code]

definition findMatchIndices :: "(string \<Rightarrow> string) \<Rightarrow> string \<Rightarrow> string \<Rightarrow> int list option" where
  "findMatchIndices lc text query =
     (let textLower = lc text; queryLower = lc query
      in indexLoop (\<lambda>index indices. indices @ [index]) textLower queryLower
           (indexOf textLower queryLower 0) [])"

definition outcome ::
  "matchType \<Rightarrow> string option \<Rightarrow> string \<Rightarrow> int list \<Rightarrow> PinyinMatchResult" where
  "outcome ty p textStr indices =
     \<lparr>matched = True, type_m = ty, pinyin_m = p, originalText = textStr,
      matchedIndices = indices\<rparr>"

text \<open>The loop over the parts of the query, and the result \<open>none\<close> after it.\<close>

fun partLoop ::
  "(string \<Rightarrow> string) \<Rightarrow> string \<Rightarrow> string \<Rightarrow> string \<Rightarrow> string list \<Rightarrow> PinyinMatchResult option" where
  "partLoop lc textStr textPinyin textInitials [] =
     Some \<lparr>matched = False, type_m = NoMatch, pinyin_m = None, originalText = textStr,
           matchedIndices = []\<rparr>"
| "partLoop lc textStr textPinyin textInitials (part # parts) =
     (if includes_s (lc textPinyin) part then
        map_option (outcome PartialPinyin (Some textPinyin) textStr)
          (findMatchIndices lc textPinyin part)
      else if includes_s textInitials part then
        map_option (outcome PartialInitials (Some textInitials) textStr)
          (findMatchIndices lc textInitials part)
      else partLoop lc textStr textPinyin textInitials parts)"

text \<open>
  \<open>matchPinyin\<close> on a text given as one string (the only use in the repository).
  The outer option is \<open>None\<close> when the call does not return, the inner one is the
  \<open>null\<close> of the source.
\<close>

definition matchPinyin ::
  "(string \<Rightarrow> string list option) \<Rightarrow> (string \<Rightarrow> string) \<Rightarrow>
   string \<Rightarrow> string \<Rightarrow> PinyinMatchResult option option"
  where
  "matchPinyin py lc searchText searchQuery =
     (if searchText = [] \<or> searchQuery = [] then Some None
      else
        let textStr = searchText;
            textPinyin = join '' '' (getPinyin py textStr);
            textPinyinNoSpace = join [] (getPinyin py textStr);
            textInitials = getPinyinInitials py lc textStr
        in map_option Some
          (if includes_s textStr searchQuery then
             map_option (outcome Direct None textStr) (findMatchIndices lc textStr searchQuery)
           else if includes_s (lc textPinyin) (lc searchQuery) then
             map_option (outcome Pinyin (Some textPinyin) textStr)
               (findMatchIndices lc textPinyin searchQuery)
           else if includes_s (lc textPinyinNoSpace) (lc searchQuery) then
             map_option (outcome Pinyin (Some textPinyinNoSpace) textStr)
               (findMatchIndices lc textPinyinNoSpace searchQuery)
           else if includes_s textInitials (lc searchQuery) then
             map_option (outcome Initials (Some textInitials) textStr)
               (findMatchIndices lc textInitials searchQuery)
           else partLoop lc textStr textPinyin textInitials
                  (split_ws (lc searchQuery))))"

definition isSingleCharPinyinMatch ::
  "(string \<Rightarrow> string list option) \<Rightarrow> (string \<Rightarrow> string) \<Rightarrow>
   string \<Rightarrow> string \<Rightarrow> bool" where
  "isSingleCharPinyinMatch py lc text query =
     (if query = [] \<or> length query \<noteq> 1 then False
      else
        let queryLower = lc query; textLower = lc text
        in if includes_s textLower queryLower then True
           else list_ex (\<lambda>c.
                  \<not> isAlnum c \<and>
                  (let charPinyin = getPinyin py [c]
                   in length charPinyin > 0 \<and>
                      list_ex (\<lambda>p. lc (take 1 p) = queryLower) charPinyin)) text)"

definition isFullPinyinMatch ::
  "(string \<Rightarrow> string list option) \<Rightarrow> (string \<Rightarrow> string) \<Rightarrow>
   string \<Rightarrow> string \<Rightarrow> bool" where
  "isFullPinyinMatch py lc text query =
     (if query = [] \<or> length query < 2 then False
      else
        let queryLower = lc query;
            textPinyinWithSpace = lc (join '' '' (getPinyin py text));
            textPinyinNoSpace = lc (join [] (getPinyin py text));
            textInitials = lc (getPinyinInitials py lc text)
        in if includes_s textPinyinWithSpace queryLower then True
           else if includes_s textPinyinNoSpace queryLower then True
           else if includes_s textInitials queryLower then True
           else if list_ex (\<lambda>word. startsWith word queryLower) (split_ws textPinyinWithSpace)
             then True
           else list_ex (\<lambda>i. take (length queryLower) (drop i textPinyinNoSpace) = queryLower)
                  [0 ..< nat (int (length textPinyinNoSpace) - int (length queryLower) + 1)])"

text \<open>The loop of \<open>enhancedMatch\<close> over the queries.\<close>

fun queryLoop ::
  "(string \<Rightarrow> string list option) \<Rightarrow> (string \<Rightarrow> string) \<Rightarrow>
   string \<Rightarrow> string list \<Rightarrow> bool option" where
  "queryLoop py lc text [] = Some False"
| "queryLoop py lc text (query # queries) =
     (if query = [] then queryLoop py lc text queries
      else if includes_s (lc text) (lc query) then Some True
      else
        case matchPinyin py lc text query of
          None \<Rightarrow> None
        | Some matchResult \<Rightarrow>
            if (case matchResult of None \<Rightarrow> False | Some r \<Rightarrow> matched r) then Some True
            else if isSingleCharPinyinMatch py lc text query then Some True
            else if isFullPinyinMatch py lc text query then Some True
            else queryLoop py lc text queries)"

definition enhancedMatch ::
  "(string \<Rightarrow> string list option) \<Rightarrow> (string \<Rightarrow> string) \<Rightarrow>
   string \<Rightarrow> string list \<Rightarrow> bool option" where
  "enhancedMatch py lc text queries =
     (if text = [] \<or> queries = [] then Some False else queryLoop py lc text queries)"

section \<open>Data of the EasyMotion manager\<close>

text \<open>
  A rectangle as \<open>getBoundingClientRect\<close> and \<open>getClientRects\<close> give it. The
  coordinates are taken as real numbers.
\<close>

record rect =
  top_r :: real
  left_r :: real
  width_r :: real
  height_r :: real

text \<open>
  A text node as the document hands it over: its text, what the ancestor queries of the
  collector answer for it, the bounding rectangle of its parent, and the client
  rectangles of the range between two offsets.
\<close>

record textNode =
  nodeValue :: string
  hasParent :: bool
  inTags :: bool
  isInsertBtn :: bool
  hasContainer :: bool
  parentRect_top :: real
  parentRect_bottom :: real
  clientRects :: "int \<Rightarrow> int \<Rightarrow> rect list"

record Match =
  node :: textNode
  index :: int
  length_m :: int
  rect_m :: rect
  allRects :: "rect list"
  pinyinMatch :: "PinyinMatchResult option"

record Hint =
  label :: string
  node_h :: textNode
  index_h :: int
  length_h :: int
  top_h :: real
  left_h :: real
  allRects_h :: "rect list"

section \<open>Labels\<close>

definition characters :: string where
  "characters = ''qwerasdfzxcv''"

text \<open>
  \<open>generateLabels\<close>: up to \<open>characters.length\<close> candidates get one unit each; for
  more, every label is \<open>chars[first] + chars[second]\<close>. In the first branch
  \<open>i < count \<le> chars.length\<close>, so the read is in range; in the second,
  \<open>chars[first]\<close> is \<open>undefined\<close> from \<open>i = 144\<close> on.
\<close>

definition generateLabels :: "nat \<Rightarrow> string list" where
  "generateLabels count =
     (let chars = characters in
      if count \<le> length chars then map (\<lambda>i. [chars ! i]) [0..<count]
      else map (\<lambda>i. let first = i div length chars; second = i mod length chars
                     in strOf (unitAt chars first) @ strOf (unitAt chars second))
               [0..<count])"

text \<open>
  \<open>renderHints\<close>, without the drawing: candidate \<open>i\<close> takes \<open>labels[i]\<close> and is
  skipped when that is \<open>undefined\<close> or empty. The marker is anchored at the top of the
  candidate's first rectangle and at the middle of its width (the scroll offsets are
  \<open>scrollX\<close> and \<open>scrollY\<close>). \<open>fixOverlaps\<close> afterwards reorders the hints by
  position and moves markers that overlap; it changes no label and no span, and the
  order is left as it is here.
\<close>

definition hintOf :: "real \<Rightarrow> real \<Rightarrow> Match \<Rightarrow> string \<Rightarrow> Hint" where
  "hintOf scrollX scrollY m l =
     \<lparr>label = l, node_h = node m, index_h = index m, length_h = length_m m,
      top_h = top_r (rect_m m) + scrollY,
      left_h = left_r (rect_m m) + width_r (rect_m m) / 2 + scrollX,
      allRects_h = allRects m\<rparr>"

fun renderLoop :: "real \<Rightarrow> real \<Rightarrow> Match list \<Rightarrow> string list \<Rightarrow> nat \<Rightarrow> Hint list" where
  "renderLoop sx sy [] labels i = []"
| "renderLoop sx sy (m # ms) labels i =
     (case (if i < length labels then Some (labels ! i) else None) of
        None \<Rightarrow> renderLoop sx sy ms labels (Suc i)
      | Some l \<Rightarrow>
          if l = [] then renderLoop sx sy ms labels (Suc i)
          else hintOf sx sy m l # renderLoop sx sy ms labels (Suc i))"

definition renderHints :: "real \<Rightarrow> real \<Rightarrow> Match list \<Rightarrow> string list \<Rightarrow> Hint list" where
  "renderHints sx sy matches labels = renderLoop sx sy matches labels 0"

section \<open>Deduplication\<close>

definition isDuplicate :: "Match list \<Rightarrow> Match \<Rightarrow> bool" where
  "isDuplicate uniqueMatches current =
     list_ex (\<lambda>existing.
        let dx = \<bar>left_r (rect_m current) - left_r (rect_m existing)\<bar>;
            dy = \<bar>top_r (rect_m current) - top_r (rect_m existing)\<bar>
        in dx < 5 \<and> dy < 5) uniqueMatches"

text \<open>The callback of the \<open>forEach\<close>: one candidate against the survivors so far.\<close>

definition dedupStep :: "Match list \<Rightarrow> Match \<Rightarrow> Match list" where
  "dedupStep uniqueMatches current =
     (if \<not> isDuplicate uniqueMatches current then uniqueMatches @ [current]
      else uniqueMatches)"

definition removeDuplicateMatches :: "Match list \<Rightarrow> Match list" where
  "removeDuplicateMatches matches = foldl dedupStep [] matches"

section \<open>The collector\<close>

text \<open>
  \<open>findEnhancedMatchIndices\<close>. \<open>[...new Set(indices)]\<close> keeps the first of equal
  entries.
\<close>

definition newSet :: "int list \<Rightarrow> int list" where
  "newSet xs = rev (remdups (rev xs))"

definition singleCharIndices ::
  "(string \<Rightarrow> string list option) \<Rightarrow> (string \<Rightarrow> string) \<Rightarrow>
   string \<Rightarrow> string \<Rightarrow> int list" where
  "singleCharIndices py lc text queryLower =
     map int (filter (\<lambda>i.
        \<not> isAlnum (text ! i) \<and>
        (case getPinyin py [text ! i] of
           [] \<Rightarrow> False
         | p0 # _ \<Rightarrow> startsWith (lc p0) queryLower)) [0 ..< length text])"

definition fullPinyinIndices ::
  "(string \<Rightarrow> string list option) \<Rightarrow> (string \<Rightarrow> string) \<Rightarrow>
   string \<Rightarrow> string \<Rightarrow> int list" where
  "fullPinyinIndices py lc text queryLower =
     map int (filter (\<lambda>i.
        \<not> isAlnum (text ! i) \<and>
        (let charPinyin = getPinyin py [text ! i];
             charPinyinStr = lc (join [] charPinyin);
             charInitial = (case charPinyin of
                              [] \<Rightarrow> []
                            | p0 # _ \<Rightarrow> if p0 = [] then [] else lc (take 1 p0))
         in (includes_s charPinyinStr queryLower \<or> charInitial = queryLower \<or>
             includes_s (lc (join '' '' charPinyin)) queryLower) \<and>
            int i \<ge> 0 \<and> i < length text)) [0 ..< length text])"

definition findEnhancedMatchIndices ::
  "(string \<Rightarrow> string list option) \<Rightarrow> (string \<Rightarrow> string) \<Rightarrow>
   string \<Rightarrow> string \<Rightarrow> int list option" where
  "findEnhancedMatchIndices py lc text query =
     (let queryLower = lc query;
          inRange = (\<lambda>i. i \<ge> 0 \<and> i < int (length text))
      in case (if includes_s (lc text) queryLower
               then indexLoop (\<lambda>i indices. if inRange i then indices @ [i] else indices)
                      (lc text) queryLower
                      (indexOf (lc text) queryLower 0) []
               else Some []) of
           None \<Rightarrow> None
         | Some indices \<Rightarrow>
             if length query = 1 \<and> length indices > 0 then Some (filter inRange indices)
             else
               let indices' =
                     (if length query = 1
                      then indices @ singleCharIndices py lc text queryLower
                      else indices @ fullPinyinIndices py lc text queryLower)
               in Some (sort (filter inRange (newSet indices'))))"

text \<open>
  The three places that build a range, ask for its client rectangles and push a
  candidate when the first rectangle lies in the viewport. \<open>vb\<close> is
  \<open>window.innerHeight\<close> and \<open>iw\<close> is \<open>window.innerWidth\<close>. The guards in front of
  each place keep both offsets within the text of the node.
\<close>

definition inViewport :: "real \<Rightarrow> real \<Rightarrow> rect \<Rightarrow> bool" where
  "inViewport vb iw r =
     (top_r r \<ge> 0 \<and> top_r r \<le> vb \<and> left_r r \<ge> 0 \<and> left_r r \<le> iw)"

definition pushMatch ::
  "real \<Rightarrow> real \<Rightarrow> textNode \<Rightarrow> int \<Rightarrow> int \<Rightarrow> int \<Rightarrow> PinyinMatchResult \<Rightarrow> Match list
   \<Rightarrow> Match list" where
  "pushMatch vb iw nd start endPosition len pm matches =
     (case clientRects nd start endPosition of
        [] \<Rightarrow> matches
      | r # rest \<Rightarrow>
          if inViewport vb iw r
          then matches @ [\<lparr>node = nd, index = start, length_m = len, rect_m = r,
                           allRects = r # rest, pinyinMatch = Some pm\<rparr>]
          else matches)"

definition directBody ::
  "real \<Rightarrow> real \<Rightarrow> textNode \<Rightarrow> string \<Rightarrow> int \<Rightarrow> Match list \<Rightarrow> Match list" where
  "directBody vb iw nd keyword i matches =
     (let text = nodeValue nd in
      if i \<ge> 0 \<and> i + int (length keyword) \<le> int (length text) then
        pushMatch vb iw nd i (i + int (length keyword)) (int (length keyword))
          \<lparr>matched = True, type_m = Direct, pinyin_m = None, originalText = text,
           matchedIndices = [i]\<rparr> matches
      else matches)"

definition pinyinBody ::
  "real \<Rightarrow> real \<Rightarrow> textNode \<Rightarrow> string \<Rightarrow> PinyinMatchResult \<Rightarrow> Match list \<Rightarrow> int
   \<Rightarrow> Match list" where
  "pinyinBody vb iw nd keyword matchResult matches matchIndex =
     (let text = nodeValue nd in
      if matchIndex \<ge> 0 \<and> matchIndex < int (length text) then
        let endPosition = min (matchIndex + int (length keyword)) (int (length text))
        in pushMatch vb iw nd matchIndex endPosition (endPosition - matchIndex) matchResult
             matches
      else matches)"

definition enhancedBody ::
  "real \<Rightarrow> real \<Rightarrow> textNode \<Rightarrow> string \<Rightarrow> Match list \<Rightarrow> int \<Rightarrow> Match list" where
  "enhancedBody vb iw nd keyword matches matchIndex =
     (let text = nodeValue nd;
          matchLength = min (int (length keyword)) (int (length text) - matchIndex);
          endPosition = min (matchIndex + matchLength) (int (length text))
      in pushMatch vb iw nd matchIndex endPosition matchLength
           \<lparr>matched = True, type_m = Enhanced, pinyin_m = Some keyword, originalText = text,
            matchedIndices = [matchIndex]\<rparr> matches)"

definition enhancedStep ::
  "(string \<Rightarrow> string list option) \<Rightarrow> (string \<Rightarrow> string) \<Rightarrow>
   real \<Rightarrow> real \<Rightarrow> textNode \<Rightarrow> string \<Rightarrow> Match list
   \<Rightarrow> Match list option" where
  "enhancedStep py lc vb iw nd keyword matches =
     map_option (foldl (enhancedBody vb iw nd keyword) matches)
       (findEnhancedMatchIndices py lc (nodeValue nd) keyword)"

text \<open>The loop over the keywords for one text node.\<close>

fun keywordLoop ::
  "(string \<Rightarrow> string list option) \<Rightarrow> (string \<Rightarrow> string) \<Rightarrow>
   real \<Rightarrow> real \<Rightarrow> textNode \<Rightarrow> string list \<Rightarrow> Match list
   \<Rightarrow> Match list option" where
  "keywordLoop py lc vb iw nd [] matches = Some matches"
| "keywordLoop py lc vb iw nd (keyword # keywords) matches =
     (if keyword = [] then keywordLoop py lc vb iw nd keywords matches
      else
        let text = nodeValue nd;
            textLower = lc text;
            keywordLower = lc keyword
        in if includes_s textLower keywordLower then
             (case indexLoop (directBody vb iw nd keyword) textLower keywordLower
                     (indexOf textLower keywordLower 0) matches of
                None \<Rightarrow> None
              | Some matches' \<Rightarrow> keywordLoop py lc vb iw nd keywords matches')
           else
             (case matchPinyin py lc text keyword of
                None \<Rightarrow> None
              | Some matchResult \<Rightarrow>
                  (case (case matchResult of
                           None \<Rightarrow> enhancedStep py lc vb iw nd keyword matches
                         | Some r \<Rightarrow>
                             if matched r \<and> length (matchedIndices r) > 0
                             then Some (foldl (pinyinBody vb iw nd keyword r) matches
                                          (matchedIndices r))
                             else enhancedStep py lc vb iw nd keyword matches) of
                     None \<Rightarrow> None
                   | Some matches' \<Rightarrow> keywordLoop py lc vb iw nd keywords matches')))"

text \<open>
  The loop over the text nodes the tree walker yields, in its order. Every
  \<open>continue\<close> goes on with the next node; the test against 300 comes after the work
  on a node.
\<close>

fun nodeLoop ::
  "(string \<Rightarrow> string list option) \<Rightarrow> (string \<Rightarrow> string) \<Rightarrow>
   real \<Rightarrow> real \<Rightarrow> string list \<Rightarrow> textNode list
   \<Rightarrow> Match list \<Rightarrow> Match list option" where
  "nodeLoop py lc vb iw keywords [] matches = Some matches"
| "nodeLoop py lc vb iw keywords (nd # nodes) matches =
     (if \<not> hasParent nd then nodeLoop py lc vb iw keywords nodes matches
      else if inTags nd then nodeLoop py lc vb iw keywords nodes matches
      else if \<not> hasContainer nd \<and> \<not> isInsertBtn nd then
        nodeLoop py lc vb iw keywords nodes matches
      else if nodeValue nd = [] then nodeLoop py lc vb iw keywords nodes matches
      else
        case enhancedMatch py lc (nodeValue nd) keywords of
          None \<Rightarrow> None
        | Some found \<Rightarrow>
            if found then
              (if parentRect_bottom nd < 0 \<or> parentRect_top nd > vb then
                 nodeLoop py lc vb iw keywords nodes matches
               else
                 case keywordLoop py lc vb iw nd keywords matches of
                   None \<Rightarrow> None
                 | Some matches' \<Rightarrow>
                     if length matches' > 300 then Some matches'
                     else nodeLoop py lc vb iw keywords nodes matches')
            else if length matches > 300 then Some matches
            else nodeLoop py lc vb iw keywords nodes matches)"

definition findVisibleMatchesWithPinyin ::
  "(string \<Rightarrow> string list option) \<Rightarrow> (string \<Rightarrow> string) \<Rightarrow>
   real \<Rightarrow> real \<Rightarrow> textNode list \<Rightarrow> string list
   \<Rightarrow> Match list option" where
  "findVisibleMatchesWithPinyin py lc vb iw nodes keywords = nodeLoop py lc vb iw keywords nodes []"

text \<open>
  \<open>findVisibleMatches\<close>: \<open>enablePinyinSearch\<close> is set to \<open>true\<close> and never
  assigned again, so the call always goes to \<open>findVisibleMatchesWithPinyin\<close>.
\<close>

definition findVisibleMatches ::
  "(string \<Rightarrow> string list option) \<Rightarrow> (string \<Rightarrow> string) \<Rightarrow>
   real \<Rightarrow> real \<Rightarrow> textNode list \<Rightarrow> string list
   \<Rightarrow> Match list option" where
  "findVisibleMatches py lc vb iw nodes keywords =
     findVisibleMatchesWithPinyin py lc vb iw nodes keywords"

section \<open>The session\<close>

text \<open>
  What the manager asks of the host is kept as a log: placing the cursor after a match
  (\<open>jumpTo\<close>), the flash on the target, opening the search bar, and putting a saved
  selection back. A saved selection is a handle of the host. \<open>window.getSelection()\<close>
  is taken to answer with a selection object.
\<close>

datatype effect =
  JumpTo textNode int int
| FlashMatch "rect list"
| OpenSearchBar
| RestoreSelection nat

record state =
  hints :: "Hint list"
  inputBuffer :: string
  active :: bool
  waitingForInput :: bool
  savedRange :: "nat option"
  lastAltPressTime :: int
  effects :: "effect list"

text \<open>
  A key-down event: the key, the repeat flag, \<open>Date.now()\<close> when it is handled, and
  the range of the window's selection at that moment, if it has one.
\<close>

record keyEvent =
  key :: string
  repeat :: bool
  now :: int
  selectionRange :: "nat option"

definition deactivate :: "state \<Rightarrow> state" where
  "deactivate s =
     (let s1 = s\<lparr>active := False, waitingForInput := False, hints := []\<rparr>
      in case savedRange s1 of
           None \<Rightarrow> s1
         | Some r \<Rightarrow> s1\<lparr>effects := effects s1 @ [RestoreSelection r], savedRange := None\<rparr>)"

definition openSearchBar :: "state \<Rightarrow> keyEvent \<Rightarrow> state" where
  "openSearchBar s e =
     s\<lparr>savedRange := selectionRange e, waitingForInput := True,
       effects := effects s @ [OpenSearchBar]\<rparr>"

text \<open>
  Enter in the search bar: the value is trimmed (white space as for \<open>\s\<close>) and, when
  something is left, split into the keywords of the session; \<open>None\<close> when the session
  is given up instead.
\<close>

definition trim :: "string \<Rightarrow> string" where
  "trim s = rev (dropWhile isSpace (rev (dropWhile isSpace s)))"

definition submittedKeywords :: "string \<Rightarrow> string list option" where
  "submittedKeywords inputValue =
     (let val = trim inputValue in if val \<noteq> [] then Some (split_ws val) else None)"

definition jumpTo :: "state \<Rightarrow> textNode \<Rightarrow> int \<Rightarrow> int \<Rightarrow> state" where
  "jumpTo s n i l = s\<lparr>savedRange := None, effects := effects s @ [JumpTo n i l]\<rparr>"

definition flashMatch :: "state \<Rightarrow> rect list \<Rightarrow> state" where
  "flashMatch s rs = s\<lparr>effects := effects s @ [FlashMatch rs]\<rparr>"

definition checkHints :: "state \<Rightarrow> string \<Rightarrow> state" where
  "checkHints s newKey =
     (let nextBuffer = inputBuffer s @ newKey;
          match = find (\<lambda>h. label h = nextBuffer) (hints s);
          possible = filter (\<lambda>h. startsWith (label h) nextBuffer) (hints s)
      in case match of
           Some h \<Rightarrow>
             deactivate (flashMatch (jumpTo s (node_h h) (index_h h) (length_h h))
                                    (allRects_h h))
         | None \<Rightarrow>
             if length possible > 0 then s\<lparr>inputBuffer := nextBuffer\<rparr> else s)"

definition handleKeyDown :: "(string \<Rightarrow> string) \<Rightarrow> state \<Rightarrow> keyEvent \<Rightarrow> state" where
  "handleKeyDown lc s e =
     (if repeat e then s
      else if key e = ''Alt'' then
        (if now e - lastAltPressTime s < 300 then
           (if active s \<or> waitingForInput s then deactivate s else openSearchBar s e)
             \<lparr>lastAltPressTime := 0\<rparr>
         else s\<lparr>lastAltPressTime := now e\<rparr>)
      else if \<not> active s \<and> \<not> waitingForInput s then s
      else if waitingForInput s then
        (if key e = ''Escape'' then deactivate s else s)
      else if active s then
        (let k = lc (key e)
         in if k = ''escape'' then deactivate s
            else if k = ''backspace'' then
              (if length (inputBuffer s) > 0
               then s\<lparr>inputBuffer := butlast (inputBuffer s)\<rparr> else s)
            else if includes_s characters k then checkHints s k
            else s)
      else s)"

section \<open>Notions used in the statements\<close>

text \<open>Two candidates are near: left and top of their first rectangles each differ by less than 5.\<close>

definition near :: "Match \<Rightarrow> Match \<Rightarrow> bool" where
  "near a b = (\<bar>left_r (rect_m a) - left_r (rect_m b)\<bar> < 5 \<and>
               \<bar>top_r (rect_m a) - top_r (rect_m b)\<bar> < 5)"

text \<open>No element of \<open>ys\<close> is a duplicate of \<open>acc\<close> followed by the elements before it.\<close>

fun fresh :: "Match list \<Rightarrow> Match list \<Rightarrow> bool" where
  "fresh acc [] = True"
| "fresh acc (y # ys) = (\<not> isDuplicate acc y \<and> fresh (acc @ [y]) ys)"

text \<open>The offsets at which \<open>q\<close> occurs in \<open>t\<close>, in increasing order.\<close>

definition occurrences :: "string \<Rightarrow> string \<Rightarrow> nat list" where
  "occurrences t q = filter (occursAt t q) [0 ..< Suc (length t)]"

text \<open>
  The order of the strategies as the specification lists them: the type of the first
  one that succeeds, and \<open>NoMatch\<close> when none does.
\<close>

definition strategyType ::
  "(string \<Rightarrow> string list option) \<Rightarrow> (string \<Rightarrow> string) \<Rightarrow>
   string \<Rightarrow> string \<Rightarrow> matchType" where
  "strategyType py lc text query =
     (let spaced = lc (join '' '' (getPinyin py text));
          joined = lc (join [] (getPinyin py text));
          initials = getPinyinInitials py lc text;
          q = lc query
      in if includes_s text query then Direct
         else if includes_s spaced q then Pinyin
         else if includes_s joined q then Pinyin
         else if includes_s initials q then Initials
         else case find (\<lambda>p. includes_s spaced p \<or> includes_s initials p) (split_ws q) of
                None \<Rightarrow> NoMatch
              | Some p \<Rightarrow> if includes_s spaced p then PartialPinyin else PartialInitials)"

text \<open>
  The string an outcome records as compared against, and a case-insensitive occurrence
  of \<open>p\<close> in \<open>s\<close> at offset \<open>i\<close>.
\<close>

definition comparedString :: "PinyinMatchResult \<Rightarrow> string" where
  "comparedString r = (case pinyin_m r of None \<Rightarrow> originalText r | Some s \<Rightarrow> s)"

definition ciOccursAt :: "(string \<Rightarrow> string) \<Rightarrow> string \<Rightarrow> string \<Rightarrow> int \<Rightarrow> bool" where
  "ciOccursAt lc s p i =
     (0 \<le> i \<and> p \<noteq> [] \<and> nat i + length p \<le> length s \<and>
      lc (take (length p) (drop (nat i) s)) = lc p)"

text \<open>
  Two facts about \<open>toLowerCase\<close> on which the statements about returning rest: only
  the empty string is lowered to the empty string, and the lowered string starts, and
  ends, with white space exactly when the string does.
\<close>

definition lowerCasing :: "(string \<Rightarrow> string) \<Rightarrow> bool" where
  "lowerCasing lc =
     ((\<forall>s. (lc s = []) = (s = [])) \<and>
      (\<forall>s. s \<noteq> [] \<longrightarrow>
           isSpace (hd (lc s)) = isSpace (hd s) \<and> isSpace (last (lc s)) = isSpace (last s)))"

text \<open>
  A sample lower-casing. The letters \<open>A\<close> to \<open>Z\<close> go to \<open>a\<close> to \<open>z\<close>. The unit
  \<open>0x80\<close> stands for U+0130, the capital I with a dot above, which
  \<open>toLowerCase\<close> turns into two units: \<open>i\<close> and the combining dot U+0307, written
  \<open>0x81\<close> here. Every other unit stays.
\<close>

definition sampleLowerUnit :: "char \<Rightarrow> string" where
  "sampleLowerUnit c =
     (if c = CHR 0x80 then [CHR ''i'', CHR 0x81]
      else case map_of (zip ''ABCDEFGHIJKLMNOPQRSTUVWXYZ'' ''abcdefghijklmnopqrstuvwxyz'') c of
             None \<Rightarrow> [c]
           | Some l \<Rightarrow> [l])"

definition sampleLower :: "string \<Rightarrow> string" where
  "sampleLower s = concat (map sampleLowerUnit s)"

text \<open>
  A sample romanizer: two units stand for the characters read \<open>ni\<close> and \<open>hao\<close>,
  and every other unit is its own syllable.
\<close>

definition samplePinyin :: "string \<Rightarrow> string list option" where
  "samplePinyin t =
     Some (map (\<lambda>c. if c = CHR 0xC4 then ''ni'' else if c = CHR 0xBA then ''hao'' else [c]) t)"

text \<open>Sample data: a text node that renders nothing, and a candidate in it placed at a point.\<close>

definition sampleNode :: textNode where
  "sampleNode =
     \<lparr>nodeValue = ''the and the'', hasParent = True, inTags = False, isInsertBtn = False,
      hasContainer = True, parentRect_top = 0, parentRect_bottom = 20,
      clientRects = (\<lambda>_ _. [])\<rparr>"

definition sampleMatch :: "real \<Rightarrow> real \<Rightarrow> Match" where
  "sampleMatch t l =
     \<lparr>node = sampleNode, index = 0, length_m = 3,
      rect_m = \<lparr>top_r = t, left_r = l, width_r = 30, height_r = 10\<rparr>,
      allRects = [], pinyinMatch = None\<rparr>"

definition sampleHint :: "string \<Rightarrow> int \<Rightarrow> Hint" where
  "sampleHint l i =
     \<lparr>label = l, node_h = sampleNode, index_h = i, length_h = 3, top_h = 0, left_h = 0,
      allRects_h = []\<rparr>"

text \<open>
  A candidate of the node \<open>nd\<close> whose range lies within the text of the node, and a
  list of candidates that grew by such candidates only.
\<close>

definition emitted :: "textNode \<Rightarrow> Match \<Rightarrow> bool" where
  "emitted nd m =
     (node m = nd \<and> 0 \<le> index m \<and> 0 \<le> length_m m \<and>
      index m + length_m m \<le> int (length (nodeValue nd)))"

definition extends :: "textNode \<Rightarrow> Match list \<Rightarrow> Match list \<Rightarrow> bool" where
  "extends nd acc r = (\<exists>ms. r = acc @ ms \<and> (\<forall>m\<in>set ms. emitted nd m))"

text \<open>
  A query token: not empty, and no white space at either end. Every piece of
  \<open>val.trim().split(/\s+/)\<close> for a non-blank \<open>val\<close> is one.
\<close>

definition queryToken :: "string \<Rightarrow> bool" where
  "queryToken k = (k \<noteq> [] \<and> \<not> isSpace (hd k) \<and> \<not> isSpace (last k))"

text \<open>
  The range of a candidate lies within the text of its node.
\<close>

definition inBounds :: "Match \<Rightarrow> bool" where
  "inBounds m =
     (0 \<le> index m \<and> 0 \<le> length_m m \<and>
      index m + length_m m \<le> int (length (nodeValue (node m))))"

text \<open>
  One round of the loop over the nodes: whether the loop stops after it, and the
  candidates then.
\<close>

definition nodeStep ::
  "(string \<Rightarrow> string list option) \<Rightarrow> (string \<Rightarrow> string) \<Rightarrow>
   real \<Rightarrow> real \<Rightarrow> string list \<Rightarrow> textNode
   \<Rightarrow> Match list \<Rightarrow> (bool \<times> Match list) option" where
  "nodeStep py lc vb iw kws nd acc =
     (if \<not> hasParent nd \<or> inTags nd \<or> (\<not> hasContainer nd \<and> \<not> isInsertBtn nd) \<or>
         nodeValue nd = []
      then Some (False, acc)
      else
        case enhancedMatch py lc (nodeValue nd) kws of
          None \<Rightarrow> None
        | Some found \<Rightarrow>
            if found then
              (if parentRect_bottom nd < 0 \<or> parentRect_top nd > vb then Some (False, acc)
               else map_option (\<lambda>mid. (length mid > 300, mid))
                      (keywordLoop py lc vb iw nd kws acc))
            else Some (length acc > 300, acc))"

text \<open>
  The candidates of the direct branch for one keyword on one node: one for each offset
  at which the lower-cased keyword occurs in the lower-cased text, when the offset and
  the length of the keyword stay within the text and the range has a first client
  rectangle inside the viewport.
\<close>

definition firstRectVisible :: "real \<Rightarrow> real \<Rightarrow> textNode \<Rightarrow> int \<Rightarrow> int \<Rightarrow> bool" where
  "firstRectVisible vb iw nd i j =
     (case clientRects nd i j of [] \<Rightarrow> False | r # rest \<Rightarrow> inViewport vb iw r)"

definition directMatch :: "textNode \<Rightarrow> string \<Rightarrow> nat \<Rightarrow> Match" where
  "directMatch nd keyword k =
     \<lparr>node = nd, index = int k, length_m = int (length keyword),
      rect_m = hd (clientRects nd (int k) (int k + int (length keyword))),
      allRects = clientRects nd (int k) (int k + int (length keyword)),
      pinyinMatch = Some \<lparr>matched = True, type_m = Direct, pinyin_m = None,
                          originalText = nodeValue nd, matchedIndices = [int k]\<rparr>\<rparr>"

definition directMatches :: "(string \<Rightarrow> string) \<Rightarrow> real \<Rightarrow> real \<Rightarrow> textNode \<Rightarrow> string \<Rightarrow> Match list" where
  "directMatches lc vb iw nd keyword =
     map (directMatch nd keyword)
       (filter (\<lambda>k. int k + int (length keyword) \<le> int (length (nodeValue nd)) \<and>
                    firstRectVisible vb iw nd (int k) (int k + int (length keyword)))
          (occurrences (lc (nodeValue nd)) (lc keyword)))"

text \<open>
  The tests a node passes before the loop over the keywords runs on it, the test of
  \<open>enhancedMatch\<close> apart: a parent element, not in the tag area, in a text container
  or an insert button, and the rectangle of the parent neither above nor below the
  viewport.
\<close>

definition scanned :: "real \<Rightarrow> textNode \<Rightarrow> bool" where
  "scanned vb nd =
     (hasParent nd \<and> \<not> inTags nd \<and> (hasContainer nd \<or> isInsertBtn nd) \<and>
      0 \<le> parentRect_bottom nd \<and> parentRect_top nd \<le> vb)"

text \<open>
  The work on one node, the test against 300 after it left out: the candidates it
  leaves.
\<close>

definition spanCandidates ::
  "(string \<Rightarrow> string list option) \<Rightarrow> (string \<Rightarrow> string) \<Rightarrow>
   real \<Rightarrow> real \<Rightarrow> string list \<Rightarrow> textNode
   \<Rightarrow> Match list \<Rightarrow> Match list option" where
  "spanCandidates py lc vb iw kws nd acc =
     (if \<not> hasParent nd then Some acc
      else if inTags nd then Some acc
      else if \<not> hasContainer nd \<and> \<not> isInsertBtn nd then Some acc
      else if nodeValue nd = [] then Some acc
      else
        case enhancedMatch py lc (nodeValue nd) kws of
          None \<Rightarrow> None
        | Some found \<Rightarrow>
            if found then
              (if parentRect_bottom nd < 0 \<or> parentRect_top nd > vb then Some acc
               else keywordLoop py lc vb iw nd kws acc)
            else Some acc)"

text \<open>
  Sample nodes: one whose unit at offset \<open>i\<close> is rendered 100 pixels further down
  per offset, and a line of \<open>n\<close> letters \<open>a\<close>, 7 pixels each.
\<close>

definition columnNode :: "string \<Rightarrow> textNode" where
  "columnNode t =
     \<lparr>nodeValue = t, hasParent = True, inTags = False, isInsertBtn = False,
      hasContainer = True, parentRect_top = 0, parentRect_bottom = 300,
      clientRects = (\<lambda>i j. [\<lparr>top_r = 100 * real_of_int i, left_r = 0,
                              width_r = 7 * real_of_int (j - i), height_r = 14\<rparr>])\<rparr>"

definition rowNode :: "nat \<Rightarrow> textNode" where
  "rowNode n =
     \<lparr>nodeValue = replicate n CHR ''a'', hasParent = True, inTags = False,
      isInsertBtn = False, hasContainer = True, parentRect_top = 0, parentRect_bottom = 14,
      clientRects = (\<lambda>i j. [\<lparr>top_r = 0, left_r = 7 * real_of_int i,
                              width_r = 7 * real_of_int (j - i), height_r = 14\<rparr>])\<rparr>"

text \<open>An active session with the hints \<open>a\<close> and \<open>sd\<close>, and a key press.\<close>

definition sampleState :: "string \<Rightarrow> state" where
  "sampleState buf =
     \<lparr>hints = [sampleHint ''a'' 0, sampleHint ''sd'' 8], inputBuffer = buf, active = True,
      waitingForInput = False, savedRange = None, lastAltPressTime = 0, effects = []\<rparr>"

definition keyDown :: "string \<Rightarrow> keyEvent" where
  "keyDown k = \<lparr>key = k, repeat = False, now = 1000, selectionRange = None\<rparr>"

section \<open>Properties of strings and of the index loop\<close>

lemma occursAt_le: "occursAt t q k \<Longrightarrow> k \<le> length t"
  by (simp add: occursAt_def)

lemma indexOf_eq_minus1_iff:
  "indexOf t q pos = - 1 \<longleftrightarrow> (\<forall>k. min (nat pos) (length t) \<le> k \<longrightarrow> \<not> occursAt t q k)"
proof -
  have "indexOf t q pos = - 1 \<longleftrightarrow>
        find (occursAt t q) [min (nat pos) (length t) ..< Suc (length t)] = None"
    by (simp add: indexOf_def split: option.splits)
  also have "\<dots> \<longleftrightarrow> (\<forall>k. min (nat pos) (length t) \<le> k \<and> k < Suc (length t) \<longrightarrow> \<not> occursAt t q k)"
    by (auto simp: find_None_iff)
  also have "\<dots> \<longleftrightarrow> (\<forall>k. min (nat pos) (length t) \<le> k \<longrightarrow> \<not> occursAt t q k)"
    using occursAt_le [of t q] by (meson less_Suc_eq_le)
  finally show ?thesis .
qed

lemma includes_s_iff: "includes_s t q \<longleftrightarrow> (\<exists>k. occursAt t q k)"
  by (simp add: includes_s_def indexOf_eq_minus1_iff)

lemma includes_s_unit: "includes_s t [c] \<longleftrightarrow> c \<in> set t"
proof -
  have "occursAt t [c] k \<longleftrightarrow> k < length t \<and> t ! k = c" for k
    by (cases "k < length t") (auto simp: occursAt_def take_Suc_conv_app_nth hd_drop_conv_nth take_Suc)
  then show ?thesis by (auto simp: includes_s_iff in_set_conv_nth)
qed

lemma indexOf_empty: "indexOf t [] pos = int (min (nat pos) (length t))"
proof -
  let ?m = "min (nat pos) (length t)"
  have "[?m ..< Suc (length t)] = ?m # [Suc ?m ..< Suc (length t)]"
    by (simp add: upt_conv_Cons)
  moreover have "occursAt t [] ?m" by (simp add: occursAt_def)
  ultimately show ?thesis by (simp add: indexOf_def)
qed

lemma indexLoop_empty_diverges:
  assumes "i0 \<noteq> - 1"
  shows "indexLoop body t [] i0 acc = None"
proof (rule ccontr)
  assume "indexLoop body t [] i0 acc \<noteq> None"
  then obtain y where y: "indexLoop body t [] i0 acc = Some y" by auto
  have "q = [] \<longrightarrow> i \<noteq> - 1 \<longrightarrow> False"
    if run: "indexLoop body t q i acc = Some y" for q i
  proof (rule indexLoop.raw_induct
      [where P = "\<lambda>body t q i acc y. q = [] \<longrightarrow> i \<noteq> - 1 \<longrightarrow> False", OF _ run])
    fix loop :: "(int \<Rightarrow> 'a \<Rightarrow> 'a) \<Rightarrow> string \<Rightarrow> string \<Rightarrow> int \<Rightarrow> 'a \<Rightarrow> 'a option"
    fix body t q i acc y
    assume ih: "\<And>b t q i a y. loop b t q i a = Some y \<Longrightarrow>
                  q = [] \<longrightarrow> i \<noteq> - 1 \<longrightarrow> False"
      and step: "(if i = - 1 then Some acc
                  else loop body t q (indexOf t q (i + 1)) (body i acc)) = Some y"
    show "q = [] \<longrightarrow> i \<noteq> - 1 \<longrightarrow> False"
    proof (intro impI)
      assume q: "q = []" and i: "i \<noteq> - 1"
      with step have "loop body t q (indexOf t q (i + 1)) (body i acc) = Some y"
        by simp
      from ih [OF this] q show False by (simp add: indexOf_empty)
    qed
  qed
  with y assms show False by blast
qed

lemma find_upt_Some:
  assumes "find P [a..<b] = Some k"
  shows "a \<le> k \<and> k < b \<and> P k \<and> (\<forall>j. a \<le> j \<and> j < k \<longrightarrow> \<not> P j)"
proof -
  from assms obtain i where i: "i < length [a..<b]" "P ([a..<b] ! i)" "k = [a..<b] ! i"
    "\<forall>j<i. \<not> P ([a..<b] ! j)"
    by (auto simp: find_Some_iff)
  then have k: "k = a + i" "i < b - a" by simp_all
  have "\<not> P j" if "a \<le> j" "j < k" for j
  proof -
    from that k have "j - a < i" by simp
    with i(4) have "\<not> P ([a..<b] ! (j - a))" by blast
    moreover from that k have "[a..<b] ! (j - a) = j" by simp
    ultimately show ?thesis by simp
  qed
  with i k show ?thesis by auto
qed

lemma filter_upt_first:
  assumes "a \<le> k" "k < b" "P k" "\<forall>j. a \<le> j \<and> j < k \<longrightarrow> \<not> P j"
  shows "filter P [a..<b] = k # filter P [Suc k..<b]"
proof -
  from assms have "[a..<b] = [a..<k] @ k # [Suc k..<b]"
    by (metis le_Suc_ex less_imp_le_nat upt_add_eq_append upt_conv_Cons)
  moreover from assms have "filter P [a..<k] = []"
    by (simp add: filter_empty_conv)
  ultimately show ?thesis using assms by simp
qed

lemma indexLoop_nonempty:
  assumes "q \<noteq> []"
  shows "indexLoop body t q (indexOf t q (int from)) acc =
         Some (foldl (\<lambda>a k. body (int k) a) acc
                (filter (occursAt t q) [from ..< Suc (length t)]))"
proof (induction "Suc (length t) - from" arbitrary: "from" acc rule: less_induct)
  case less
  show ?case
  proof (cases "from \<le> length t")
    case False
    then have "min from (length t) = length t" by simp
    moreover have "\<not> occursAt t q (length t)" using assms by (simp add: occursAt_def)
    ultimately have "indexOf t q (int from) = - 1"
      by (simp add: indexOf_def)
    moreover from False have "[from ..< Suc (length t)] = []" by simp
    ultimately show ?thesis by (simp add: indexLoop.simps)
  next
    case True
    then have m: "min (nat (int from)) (length t) = from" by simp
    show ?thesis
    proof (cases "find (occursAt t q) [from ..< Suc (length t)]")
      case None
      then have "filter (occursAt t q) [from ..< Suc (length t)] = []"
        by (auto simp: find_None_iff filter_empty_conv)
      moreover from None m have "indexOf t q (int from) = - 1" by (simp add: indexOf_def)
      ultimately show ?thesis by (simp add: indexLoop.simps)
    next
      case (Some k)
      note f = find_upt_Some [OF Some]
      from Some m have ix: "indexOf t q (int from) = int k" by (simp add: indexOf_def)
      from f have fl: "filter (occursAt t q) [from ..< Suc (length t)] =
                       k # filter (occursAt t q) [Suc k ..< Suc (length t)]"
        by (intro filter_upt_first) auto
      from f have "Suc (length t) - Suc k < Suc (length t) - from" by auto
      from less [OF this]
      have ih: "indexLoop body t q (indexOf t q (int (Suc k))) (body (int k) acc) =
                Some (foldl (\<lambda>a k. body (int k) a) (body (int k) acc)
                       (filter (occursAt t q) [Suc k ..< Suc (length t)]))" .
      have "indexLoop body t q (int k) acc =
            indexLoop body t q (indexOf t q (int k + 1)) (body (int k) acc)"
        by (subst indexLoop.simps) simp
      also have "int k + 1 = int (Suc k)" by simp
      finally show ?thesis using ih ix fl by simp
    qed
  qed
qed

lemma foldl_snoc_map: "foldl (\<lambda>a k. a @ [f k]) acc ks = acc @ map f ks"
  by (induction ks arbitrary: acc) auto

lemma findMatchIndices_nonempty:
  "lc query \<noteq> [] \<Longrightarrow>
   findMatchIndices lc text query =
     Some (map int (occurrences (lc text) (lc query)))"
  using indexLoop_nonempty [of "lc query" "\<lambda>index indices. indices @ [index]"
      "lc text" 0 "[]"]
  by (simp add: findMatchIndices_def Let_def foldl_snoc_map occurrences_def)

lemma findMatchIndices_empty: "lc query = [] \<Longrightarrow> findMatchIndices lc text query = None"
  by (simp add: findMatchIndices_def Let_def indexOf_empty indexLoop_empty_diverges)

lemma lowerCasing_Nil: "lowerCasing lc \<Longrightarrow> (lc s = []) = (s = [])"
  by (simp add: lowerCasing_def)

lemma occurrences_iff: "k \<in> set (occurrences t q) \<longleftrightarrow> occursAt t q k"
proof
  assume "k \<in> set (occurrences t q)"
  then show "occursAt t q k" by (simp add: occurrences_def del: upt_Suc)
next
  assume o: "occursAt t q k"
  then have "k < Suc (length t)" using occursAt_le [of t q k] by simp
  with o show "k \<in> set (occurrences t q)" by (simp add: occurrences_def del: upt_Suc)
qed

lemma splitLoop_nonempty:
  "(s = [] \<longrightarrow> cur \<noteq> []) \<Longrightarrow>
   (s \<noteq> [] \<longrightarrow> (cur \<noteq> [] \<or> \<not> isSpace (hd s)) \<and> \<not> isSpace (last s)) \<Longrightarrow>
   \<forall>p\<in>set (splitLoop s cur). p \<noteq> []"
proof (induction s cur rule: splitLoop.induct)
  case (1 cur)
  then show ?case by simp
next
  case (2 c cs cur)
  show ?case
  proof (cases "isSpace c")
    case True
    with 2(4) have cur: "cur \<noteq> []" and lst: "\<not> isSpace (last (c # cs))" by auto
    from lst True have cs: "cs \<noteq> []" by auto
    with lst have lcs: "\<not> isSpace (last cs)" by simp
    with cs have "last cs \<in> set (dropWhile isSpace cs)"
      by (metis dropWhile_append3 append_butlast_last_id in_set_conv_decomp)
    then have ne: "dropWhile isSpace cs \<noteq> []" by (metis empty_iff empty_set)
    then have h: "\<not> isSpace (hd (dropWhile isSpace cs))" by (rule hd_dropWhile)
    have l: "last (dropWhile isSpace cs) = last cs"
      using ne by (metis takeWhile_dropWhile_id last_appendR)
    have "\<forall>p\<in>set (splitLoop (dropWhile isSpace cs) []). p \<noteq> []"
      using ne h l lcs by (intro 2(1) [OF True]) auto
    with cur True show ?thesis by simp
  next
    case False
    have "\<forall>p\<in>set (splitLoop cs (cur @ [c])). p \<noteq> []"
      using 2(4) by (intro 2(2) [OF False]) auto
    with False show ?thesis by simp
  qed
qed

lemma split_ws_nonempty:
  assumes "q \<noteq> []" "\<not> isSpace (hd q)" "\<not> isSpace (last q)"
  shows "\<forall>p\<in>set (split_ws q). p \<noteq> []"
  using assms unfolding split_ws_def by (intro splitLoop_nonempty) auto

lemma split_ws_lowered_nonempty:
  assumes "lowerCasing lc" "q \<noteq> []" "\<not> isSpace (hd q)" "\<not> isSpace (last q)"
  shows "\<forall>p\<in>set (split_ws (lc q)). p \<noteq> []"
  using assms by (intro split_ws_nonempty) (auto simp: lowerCasing_def)

text \<open>The sample lower-casing has the two properties.\<close>

lemma sampleLowerUnit_ends:
  "sampleLowerUnit c \<noteq> [] \<and> isSpace (hd (sampleLowerUnit c)) = isSpace c \<and>
   isSpace (last (sampleLowerUnit c)) = isSpace c"
  by (auto simp: sampleLowerUnit_def isSpace_def split: option.splits if_splits)

lemma lowerCasing_sampleLower: "lowerCasing sampleLower"
proof -
  have nil: "(sampleLower s = []) = (s = [])" for s
    using sampleLowerUnit_ends by (cases s) (auto simp: sampleLower_def)
  have ends: "isSpace (hd (sampleLower s)) = isSpace (hd s) \<and>
              isSpace (last (sampleLower s)) = isSpace (last s)" if "s \<noteq> []" for s
  proof -
    from that obtain c cs where s: "s = c # cs" by (cases s) auto
    from that obtain bs l where sl: "s = bs @ [l]" by (cases s rule: rev_cases) auto
    have "hd (sampleLower s) = hd (sampleLowerUnit c)"
      using sampleLowerUnit_ends [of c] by (simp add: s sampleLower_def)
    moreover have "last (sampleLower s) = last (sampleLowerUnit l)"
      using sampleLowerUnit_ends [of l] by (simp add: sl sampleLower_def)
    moreover have "hd s = c" by (simp add: s)
    moreover have "last s = l" by (simp add: sl)
    ultimately show ?thesis using sampleLowerUnit_ends [of c] sampleLowerUnit_ends [of l]
      by simp
  qed
  from nil ends show ?thesis by (simp add: lowerCasing_def)
qed

section \<open>Properties of the label generator\<close>

lemma length_generateLabels: "length (generateLabels n) = n"
  by (simp add: generateLabels_def Let_def)

lemma characters_length: "length characters = 12"
  by (simp add: characters_def)

lemma characters_distinct: "distinct characters"
  by (simp add: characters_def)

lemma generateLabels_small:
  "n \<le> 12 \<Longrightarrow> i < n \<Longrightarrow> generateLabels n ! i = [characters ! i]"
  by (simp add: generateLabels_def Let_def characters_length)

lemma generateLabels_large:
  "12 < n \<Longrightarrow> i < n \<Longrightarrow>
   generateLabels n ! i = strOf (unitAt characters (i div 12)) @ [characters ! (i mod 12)]"
  by (simp add: generateLabels_def Let_def characters_length unitAt_def strOf_def)

lemma generateLabels_pair:
  "12 < n \<Longrightarrow> i < n \<Longrightarrow> i < 144 \<Longrightarrow>
   generateLabels n ! i = [characters ! (i div 12), characters ! (i mod 12)]"
proof -
  assume a: "12 < n" "i < n" "i < 144"
  then have "i div 12 < 12" by simp
  then show ?thesis using a
    by (simp add: generateLabels_large unitAt_def strOf_def characters_length)
qed

text \<open>
  Claim C2, as amended. \<open>generateLabels n\<close> returns \<open>n\<close> labels. For
  \<open>n \<le> 12\<close> they are the first \<open>n\<close> symbols of the alphabet, one symbol each.
  For \<open>12 < n \<le> 144\<close> every label, the first twelve included, is the pair
  \<open>alphabet[i div 12]\<close>, \<open>alphabet[i mod 12]\<close> with \<open>i\<close> the zero-based index among
  all \<open>n\<close> labels. In both cases the labels are drawn from the alphabet only.
\<close>

theorem generateLabels_scheme:
  "length (generateLabels n) = n \<and>
   (n \<le> 12 \<longrightarrow> (\<forall>i<n. generateLabels n ! i = [characters ! i] \<and>
                        set (generateLabels n ! i) \<subseteq> set characters)) \<and>
   (12 < n \<and> n \<le> 144 \<longrightarrow>
      (\<forall>i<n. generateLabels n ! i = [characters ! (i div 12), characters ! (i mod 12)] \<and>
              set (generateLabels n ! i) \<subseteq> set characters))"
proof (intro conjI impI allI)
  show "length (generateLabels n) = n" by (rule length_generateLabels)
next
  fix i assume "n \<le> 12" "i < n"
  then show "generateLabels n ! i = [characters ! i]" by (simp add: generateLabels_small)
next
  fix i assume a: "n \<le> 12" "i < n"
  then have "i < length characters" by (simp add: characters_length)
  then show "set (generateLabels n ! i) \<subseteq> set characters"
    using a by (simp add: generateLabels_small)
next
  fix i assume a: "12 < n \<and> n \<le> 144" "i < n"
  then show "generateLabels n ! i = [characters ! (i div 12), characters ! (i mod 12)]"
    by (simp add: generateLabels_pair)
next
  fix i assume a: "12 < n \<and> n \<le> 144" "i < n"
  then have "i < 144" by simp
  then have "i div 12 < length characters" "i mod 12 < length characters"
    by (simp_all add: characters_length)
  then show "set (generateLabels n ! i) \<subseteq> set characters"
    using a by (simp add: generateLabels_pair)
qed

text \<open>The scheme at thirteen and at three candidates.\<close>

theorem generateLabels_scheme_witness:
  "length (generateLabels 13) = 13 \<and> generateLabels 13 ! 0 = ''qq'' \<and>
   generateLabels 13 ! 12 = ''wq'' \<and> generateLabels 3 ! 2 = ''e''"
  using generateLabels_scheme [of 13] generateLabels_scheme [of 3]
  by (simp add: characters_def)

text \<open>
  Claim C2 as stated asks that with more than twelve candidates the first twelve labels
  still have one symbol and that the thirteenth is the first pair. With thirteen
  candidates the first label is the pair \<open>qq\<close> and the thirteenth is \<open>wq\<close>.
\<close>

theorem generateLabels_first_twelve_counterexample:
  "(12::nat) < 13 \<and> generateLabels 13 ! 0 = ''qq'' \<and> length (generateLabels 13 ! 0) \<noteq> 1 \<and>
   generateLabels 13 ! 12 \<noteq> ''qq''"
  by code_simp


lemma label_inj_small: "inj_on (\<lambda>i. [characters ! i]) {0..<12}"
  unfolding inj_on_def
  using characters_distinct
  by (simp add: nth_eq_iff_index_eq characters_length)

lemma label_inj_large:
  "inj_on (\<lambda>i. strOf (unitAt characters (i div 12)) @ [characters ! (i mod 12)]) {0..<156}"
proof (rule inj_onI)
  fix i j :: nat
  assume i: "i \<in> {0..<156}" and j: "j \<in> {0..<156}"
    and eq: "strOf (unitAt characters (i div 12)) @ [characters ! (i mod 12)] =
             strOf (unitAt characters (j div 12)) @ [characters ! (j mod 12)]"
  have md: "i mod 12 = j mod 12"
  proof -
    from eq have "characters ! (i mod 12) = characters ! (j mod 12)" by simp
    then show ?thesis
      using characters_distinct by (simp add: nth_eq_iff_index_eq characters_length)
  qed
  from eq have pre: "strOf (unitAt characters (i div 12)) = strOf (unitAt characters (j div 12))"
    by simp
  have dv: "i div 12 = j div 12"
  proof (cases "i div 12 < 12")
    case True
    note ti = this
    show ?thesis
    proof (cases "j div 12 < 12")
      case True
      with ti pre have "characters ! (i div 12) = characters ! (j div 12)"
        by (simp add: unitAt_def strOf_def characters_length)
      with ti True show ?thesis
        using characters_distinct by (simp add: nth_eq_iff_index_eq characters_length)
    next
      case False
      with ti pre show ?thesis
        by (simp add: unitAt_def strOf_def characters_length)
    qed
  next
    case False
    note fi = this
    show ?thesis
    proof (cases "j div 12 < 12")
      case True
      with fi pre show ?thesis
        by (simp add: unitAt_def strOf_def characters_length)
    next
      case False
      from i have "i < 156" by simp
      then have "i div 12 < 13" by simp
      with fi have "i div 12 = 12" by linarith
      moreover from j have "j < 156" by simp
      then have "j div 12 < 13" by simp
      with False have "j div 12 = 12" by linarith
      ultimately show ?thesis by simp
    qed
  qed
  from md dv show "i = j"
    by (metis div_mult_mod_eq)
qed

lemma generateLabels_no_single:
  "12 < n \<Longrightarrow> i < n \<Longrightarrow> length (generateLabels n ! i) \<noteq> 1"
  by (simp add: generateLabels_large unitAt_def strOf_def)

lemma generateLabels_map_small:
  "n \<le> 12 \<Longrightarrow> generateLabels n = map (\<lambda>i. [characters ! i]) [0..<n]"
  by (simp add: generateLabels_def Let_def characters_length)

lemma generateLabels_map_large:
  "12 < n \<Longrightarrow>
   generateLabels n =
     map (\<lambda>i. strOf (unitAt characters (i div 12)) @ [characters ! (i mod 12)]) [0..<n]"
  by (simp add: generateLabels_def Let_def characters_length unitAt_def strOf_def)

text \<open>
  Claim C5. For every count \<open>n \<le> 156\<close> the labels of \<open>generateLabels n\<close> are
  pairwise distinct, and a label of length one is never assigned after a label of length
  two.
\<close>

theorem generateLabels_distinct:
  "n \<le> 156 \<Longrightarrow>
   distinct (generateLabels n) \<and>
   (\<forall>i j. i < n \<and> j < n \<and> length (generateLabels n ! i) = 1 \<and>
          length (generateLabels n ! j) = 2 \<longrightarrow> i < j)"
proof (cases "n \<le> 12")
  case True
  then have "{0..<n} \<subseteq> {0..<12}" by simp
  then have "inj_on (\<lambda>i. [characters ! i]) {0..<n}"
    by (rule inj_on_subset [OF label_inj_small])
  then have "distinct (generateLabels n)"
    unfolding generateLabels_map_small [OF True] by (simp only: distinct_map distinct_upt set_upt)
  moreover have "\<And>j. j < n \<Longrightarrow> length (generateLabels n ! j) \<noteq> 2"
    using True by (simp add: generateLabels_small)
  ultimately show ?thesis by blast
next
  case False
  then have big: "12 < n" by simp
  assume "n \<le> 156"
  then have "{0..<n} \<subseteq> {0..<156}" by simp
  then have "inj_on (\<lambda>i. strOf (unitAt characters (i div 12)) @ [characters ! (i mod 12)])
               {0..<n}"
    by (rule inj_on_subset [OF label_inj_large])
  then have "distinct (generateLabels n)"
    unfolding generateLabels_map_large [OF big] by (simp only: distinct_map distinct_upt set_upt)
  moreover have "\<And>i. i < n \<Longrightarrow> length (generateLabels n ! i) \<noteq> 1"
    using big by (rule generateLabels_no_single)
  ultimately show ?thesis by blast
qed

text \<open>The labels of 150 candidates and of 12 candidates are distinct.\<close>

theorem generateLabels_distinct_witness:
  "(150::nat) \<le> 156 \<and> distinct (generateLabels 150) \<and> distinct (generateLabels 12)"
proof -
  have h: "(150::nat) \<le> 156" by simp
  have k: "(12::nat) \<le> 156" by simp
  from generateLabels_distinct [OF h] generateLabels_distinct [OF k] h show ?thesis by blast
qed


section \<open>Properties of deduplication and of the hints\<close>

lemma dedupStep_apply:
  "dedupStep us m = (if isDuplicate us m then us else us @ [m])"
  by (simp add: dedupStep_def)

lemma removeDuplicateMatches_foldl: "removeDuplicateMatches ms = foldl dedupStep [] ms"
  by (simp add: removeDuplicateMatches_def)

lemma isDuplicate_near: "isDuplicate us m = (\<exists>e\<in>set us. near m e)"
  by (simp add: isDuplicate_def near_def list_ex_iff Let_def)

lemma removeDuplicateMatches_snoc:
  "removeDuplicateMatches (ms @ [m]) =
     (if isDuplicate (removeDuplicateMatches ms) m then removeDuplicateMatches ms
      else removeDuplicateMatches ms @ [m])"
proof -
  have "removeDuplicateMatches (ms @ [m]) = dedupStep (removeDuplicateMatches ms) m"
    by (simp add: removeDuplicateMatches_foldl)
  then show ?thesis by (simp add: dedupStep_apply)
qed

lemma foldl_dedupStep_prefix: "take (length acc) (foldl dedupStep acc ms) = acc"
proof (induction ms arbitrary: acc)
  case Nil
  show ?case by simp
next
  case (Cons m ms)
  show ?case
  proof (cases "isDuplicate acc m")
    case True
    then have "dedupStep acc m = acc" by (simp add: dedupStep_apply)
    then show ?thesis using Cons.IH [of acc] by simp
  next
    case False
    then have step: "dedupStep acc m = acc @ [m]" by (simp add: dedupStep_apply)
    have "take (length acc) (foldl dedupStep (acc @ [m]) ms) =
          take (length acc) (take (length (acc @ [m])) (foldl dedupStep (acc @ [m]) ms))"
      by (simp add: min_def)
    also have "\<dots> = take (length acc) (acc @ [m])"
      by (simp only: Cons.IH)
    finally show ?thesis using step by simp
  qed
qed

lemma removeDuplicateMatches_prefix:
  "take (length (removeDuplicateMatches ms)) (removeDuplicateMatches (ms @ rest)) =
   removeDuplicateMatches ms"
  by (simp add: removeDuplicateMatches_foldl foldl_dedupStep_prefix)

lemma fresh_snoc: "fresh acc (ys @ [y]) = (fresh acc ys \<and> \<not> isDuplicate (acc @ ys) y)"
  by (induction ys arbitrary: acc) auto

lemma fresh_foldl: "fresh acc ys \<Longrightarrow> foldl dedupStep acc ys = acc @ ys"
proof (induction ys arbitrary: acc)
  case Nil
  show ?case by simp
next
  case (Cons y ys)
  then have "dedupStep acc y = acc @ [y]" by (simp add: dedupStep_apply)
  moreover from Cons have "foldl dedupStep (acc @ [y]) ys = (acc @ [y]) @ ys" by simp
  ultimately show ?case by simp
qed

lemma fresh_removeDuplicateMatches: "fresh [] (removeDuplicateMatches ms)"
proof (induction ms rule: rev_induct)
  case Nil
  show ?case by (simp add: removeDuplicateMatches_foldl)
next
  case (snoc m ms)
  then show ?case by (simp add: removeDuplicateMatches_snoc fresh_snoc)
qed

text \<open>
  Claim C7. \<open>removeDuplicateMatches\<close> goes through the candidates in order and keeps
  one exactly when no survivor among the earlier candidates has both its left and its
  top coordinate within less than 5 of it; what survived stays in front, whatever
  follows; and the function is idempotent.
\<close>

theorem removeDuplicateMatches_first_seen:
  "removeDuplicateMatches [] = [] \<and>
   removeDuplicateMatches (ms @ [m]) =
     (if \<exists>e\<in>set (removeDuplicateMatches ms).
           \<bar>left_r (rect_m m) - left_r (rect_m e)\<bar> < 5 \<and>
           \<bar>top_r (rect_m m) - top_r (rect_m e)\<bar> < 5
      then removeDuplicateMatches ms
      else removeDuplicateMatches ms @ [m]) \<and>
   take (length (removeDuplicateMatches ms)) (removeDuplicateMatches (ms @ rest)) =
     removeDuplicateMatches ms \<and>
   removeDuplicateMatches (removeDuplicateMatches ms) = removeDuplicateMatches ms"
proof (intro conjI)
  show "removeDuplicateMatches [] = []" by (simp add: removeDuplicateMatches_foldl)
next
  show "removeDuplicateMatches (ms @ [m]) =
     (if \<exists>e\<in>set (removeDuplicateMatches ms).
           \<bar>left_r (rect_m m) - left_r (rect_m e)\<bar> < 5 \<and>
           \<bar>top_r (rect_m m) - top_r (rect_m e)\<bar> < 5
      then removeDuplicateMatches ms
      else removeDuplicateMatches ms @ [m])"
    using removeDuplicateMatches_snoc [of ms m] by (simp add: isDuplicate_near near_def)
next
  show "take (length (removeDuplicateMatches ms)) (removeDuplicateMatches (ms @ rest)) =
     removeDuplicateMatches ms"
    by (rule removeDuplicateMatches_prefix)
next
  have "foldl dedupStep [] (removeDuplicateMatches ms) = [] @ removeDuplicateMatches ms"
    by (rule fresh_foldl [OF fresh_removeDuplicateMatches])
  then show "removeDuplicateMatches (removeDuplicateMatches ms) = removeDuplicateMatches ms"
    by (simp add: removeDuplicateMatches_foldl)
qed

text \<open>
  A candidate 3 pixels off an earlier one in both coordinates is dropped, one that is 5
  pixels to the right is kept, and a second pass changes nothing.
\<close>

theorem removeDuplicateMatches_first_seen_witness:
  "removeDuplicateMatches ([sampleMatch 0 0] @ [sampleMatch 3 3]) = [sampleMatch 0 0] \<and>
   removeDuplicateMatches ([sampleMatch 0 0] @ [sampleMatch 3 5]) =
     [sampleMatch 0 0] @ [sampleMatch 3 5] \<and>
   removeDuplicateMatches (removeDuplicateMatches [sampleMatch 0 0, sampleMatch 3 3]) =
     removeDuplicateMatches [sampleMatch 0 0, sampleMatch 3 3]"
proof -
  have one: "removeDuplicateMatches [sampleMatch 0 0] = [sampleMatch 0 0]"
    by (simp add: removeDuplicateMatches_def dedupStep_def isDuplicate_def)
  have c1: "(\<exists>e\<in>set [sampleMatch 0 0].
               \<bar>left_r (rect_m (sampleMatch 3 3)) - left_r (rect_m e)\<bar> < 5 \<and>
               \<bar>top_r (rect_m (sampleMatch 3 3)) - top_r (rect_m e)\<bar> < 5) = True"
    by (simp add: sampleMatch_def)
  have c2: "(\<exists>e\<in>set [sampleMatch 0 0].
               \<bar>left_r (rect_m (sampleMatch 3 5)) - left_r (rect_m e)\<bar> < 5 \<and>
               \<bar>top_r (rect_m (sampleMatch 3 5)) - top_r (rect_m e)\<bar> < 5) = False"
    by (simp add: sampleMatch_def)
  note t1 = removeDuplicateMatches_first_seen [of "[sampleMatch 0 0]" "sampleMatch 3 3" "[]"]
  note t2 = removeDuplicateMatches_first_seen [of "[sampleMatch 0 0]" "sampleMatch 3 5" "[]"]
  note t3 = removeDuplicateMatches_first_seen
    [of "[sampleMatch 0 0, sampleMatch 3 3]" "sampleMatch 3 3" "[]"]
  from t1 have "removeDuplicateMatches ([sampleMatch 0 0] @ [sampleMatch 3 3]) = [sampleMatch 0 0]"
    by (simp only: one c1 if_True)
  moreover from t2 have "removeDuplicateMatches ([sampleMatch 0 0] @ [sampleMatch 3 5]) =
     [sampleMatch 0 0] @ [sampleMatch 3 5]"
    by (simp only: one c2 if_False)
  moreover from t3 have
    "removeDuplicateMatches (removeDuplicateMatches [sampleMatch 0 0, sampleMatch 3 3]) =
     removeDuplicateMatches [sampleMatch 0 0, sampleMatch 3 3]"
    by blast
  ultimately show ?thesis by blast
qed

lemma renderLoop_all:
  "i + length ms \<le> length labels \<Longrightarrow> \<forall>l\<in>set labels. l \<noteq> [] \<Longrightarrow>
   renderLoop sx sy ms labels i = map (\<lambda>(m, l). hintOf sx sy m l) (zip ms (drop i labels))"
proof (induction ms arbitrary: i)
  case Nil
  show ?case by simp
next
  case (Cons m ms)
  then have i: "i < length labels" by simp
  then have ne: "labels ! i \<noteq> []" using Cons.prems(2) by simp
  have d: "drop i labels = labels ! i # drop (Suc i) labels"
    using i by (simp add: Cons_nth_drop_Suc)
  from Cons.prems have "Suc i + length ms \<le> length labels" by simp
  then have "renderLoop sx sy ms labels (Suc i) =
     map (\<lambda>(m, l). hintOf sx sy m l) (zip ms (drop (Suc i) labels))"
    using Cons.prems(2) by (rule Cons.IH)
  then show ?case using i ne d by (simp add: Let_def)
qed

lemma generateLabels_nonempty: "\<forall>l\<in>set (generateLabels n). l \<noteq> []"
  by (auto simp: generateLabels_def Let_def unitAt_def strOf_def characters_def)

lemma renderHints_generateLabels:
  "length ms = n \<Longrightarrow>
   renderHints sx sy ms (generateLabels n) =
     map (\<lambda>(m, l). hintOf sx sy m l) (zip ms (generateLabels n))"
  using renderLoop_all [of 0 ms "generateLabels n" sx sy]
  by (simp add: renderHints_def generateLabels_nonempty generateLabels_def Let_def)

lemma sample_column_fresh: "fresh [] (map (\<lambda>k. sampleMatch (10 * real k) 0) [0..<n])"
proof (induction n)
  case 0
  show ?case by simp
next
  case (Suc n)
  have "\<not> isDuplicate (map (\<lambda>k. sampleMatch (10 * real k) 0) [0..<n])
           (sampleMatch (10 * real n) 0)"
    by (auto simp: isDuplicate_near near_def sampleMatch_def)
  with Suc show ?case by (simp add: fresh_snoc)
qed

text \<open>
  Claim C9 against the code, at 145 candidates that deduplication keeps apart. The last
  label is the text \<open>undefinedq\<close>: \<open>chars[12]\<close> is \<open>undefined\<close> and the
  concatenation writes it out. The label is not empty, so \<open>renderHints\<close> does not skip
  the candidate: there are 145 hints, and the last one carries that label.
\<close>

theorem generateLabels_beyond_capacity:
  "removeDuplicateMatches (map (\<lambda>k. sampleMatch (10 * real k) 0) [0..<145]) =
     map (\<lambda>k. sampleMatch (10 * real k) 0) [0..<145] \<and>
   generateLabels 145 ! 144 = ''undefinedq'' \<and>
   length (renderHints 0 0 (map (\<lambda>k. sampleMatch (10 * real k) 0) [0..<145])
             (generateLabels 145)) = 145 \<and>
   label (renderHints 0 0 (map (\<lambda>k. sampleMatch (10 * real k) 0) [0..<145])
            (generateLabels 145) ! 144) = ''undefinedq''"
proof -
  have d: "removeDuplicateMatches (map (\<lambda>k. sampleMatch (10 * real k) 0) [0..<145]) =
     map (\<lambda>k. sampleMatch (10 * real k) 0) [0..<145]"
    using fresh_foldl [OF sample_column_fresh [of 145]]
    by (simp add: removeDuplicateMatches_foldl)
  have l: "generateLabels 145 ! 144 = ''undefinedq''" by code_simp
  have n: "length (map (\<lambda>k. sampleMatch (10 * real k) 0) [0..<145]) = 145" by simp
  have len: "length (generateLabels 145) = 145" by (simp add: generateLabels_def Let_def)
  have r: "length (renderHints 0 0 (map (\<lambda>k. sampleMatch (10 * real k) 0) [0..<145])
             (generateLabels 145)) = 145 \<and>
   label (renderHints 0 0 (map (\<lambda>k. sampleMatch (10 * real k) 0) [0..<145])
            (generateLabels 145) ! 144) = ''undefinedq''"
    unfolding renderHints_generateLabels [OF n]
    using l len by (simp add: hintOf_def)
  from d l r show ?thesis by blast
qed


section \<open>Properties of the session\<close>

text \<open>
  Claim C3. In the active state, a key of the label alphabet is appended to the buffer
  for the comparison. If some hint carries exactly that label, the session jumps to the
  span of such a hint and deactivates. Otherwise, if the label of some hint starts with
  it, the appended buffer is kept. Otherwise the state, and so the buffer, is unchanged.
  Backspace removes the last character of the buffer and does nothing when it is empty.
  The key is any key but \<open>Alt\<close>, which the handler takes before it looks at the
  state; the lower-casing of the key is arbitrary.
\<close>

theorem handleKeyDown_active:
  assumes "active s" and "\<not> waitingForInput s" and "\<not> repeat e" and "key e \<noteq> ''Alt''"
  shows
    "(lc (key e) = [c] \<and> c \<in> set characters \<longrightarrow>
        ((\<exists>h\<in>set (hints s). label h = inputBuffer s @ [c]) \<longrightarrow>
           (\<exists>h\<in>set (hints s). label h = inputBuffer s @ [c] \<and>
              handleKeyDown lc s e =
                s\<lparr>hints := [], active := False, waitingForInput := False, savedRange := None,
                  effects := effects s @ [JumpTo (node_h h) (index_h h) (length_h h),
                                          FlashMatch (allRects_h h)]\<rparr>)) \<and>
        (\<not> (\<exists>h\<in>set (hints s). label h = inputBuffer s @ [c]) \<and>
         (\<exists>h\<in>set (hints s). startsWith (label h) (inputBuffer s @ [c])) \<longrightarrow>
           handleKeyDown lc s e = s\<lparr>inputBuffer := inputBuffer s @ [c]\<rparr>) \<and>
        (\<not> (\<exists>h\<in>set (hints s). startsWith (label h) (inputBuffer s @ [c])) \<longrightarrow>
           handleKeyDown lc s e = s)) \<and>
     (lc (key e) = ''backspace'' \<longrightarrow>
        handleKeyDown lc s e =
          (if inputBuffer s = [] then s else s\<lparr>inputBuffer := butlast (inputBuffer s)\<rparr>))"
proof (intro conjI impI)
  assume k: "lc (key e) = [c] \<and> c \<in> set characters"
  have run: "handleKeyDown lc s e = checkHints s [c]"
    using assms k by (simp add: handleKeyDown_def Let_def includes_s_unit)
  {
    assume "\<exists>h\<in>set (hints s). label h = inputBuffer s @ [c]"
    then obtain h where h: "find (\<lambda>h. label h = inputBuffer s @ [c]) (hints s) = Some h"
      by (cases "find (\<lambda>h. label h = inputBuffer s @ [c]) (hints s)") (auto simp: find_None_iff)
    then have hin: "h \<in> set (hints s)" "label h = inputBuffer s @ [c]"
      by (auto simp: find_Some_iff)
    have "checkHints s [c] =
            s\<lparr>hints := [], active := False, waitingForInput := False, savedRange := None,
              effects := effects s @ [JumpTo (node_h h) (index_h h) (length_h h),
                                      FlashMatch (allRects_h h)]\<rparr>"
      using h by (simp add: checkHints_def Let_def deactivate_def flashMatch_def jumpTo_def)
    with hin run
    show "\<exists>h\<in>set (hints s). label h = inputBuffer s @ [c] \<and>
              handleKeyDown lc s e =
                s\<lparr>hints := [], active := False, waitingForInput := False, savedRange := None,
                  effects := effects s @ [JumpTo (node_h h) (index_h h) (length_h h),
                                          FlashMatch (allRects_h h)]\<rparr>"
      by auto
  }
  {
    assume a: "\<not> (\<exists>h\<in>set (hints s). label h = inputBuffer s @ [c]) \<and>
         (\<exists>h\<in>set (hints s). startsWith (label h) (inputBuffer s @ [c]))"
    then have "find (\<lambda>h. label h = inputBuffer s @ [c]) (hints s) = None"
      by (simp add: find_None_iff)
    moreover from a have "filter (\<lambda>h. startsWith (label h) (inputBuffer s @ [c])) (hints s) \<noteq> []"
      by (simp add: filter_empty_conv)
    ultimately show "handleKeyDown lc s e = s\<lparr>inputBuffer := inputBuffer s @ [c]\<rparr>"
      using run by (simp add: checkHints_def Let_def)
  }
  {
    assume a: "\<not> (\<exists>h\<in>set (hints s). startsWith (label h) (inputBuffer s @ [c]))"
    have "label h = inputBuffer s @ [c] \<Longrightarrow> startsWith (label h) (inputBuffer s @ [c])" for h
      by (simp add: startsWith_def occursAt_def)
    with a have "find (\<lambda>h. label h = inputBuffer s @ [c]) (hints s) = None"
      by (auto simp: find_None_iff)
    moreover from a have "filter (\<lambda>h. startsWith (label h) (inputBuffer s @ [c])) (hints s) = []"
      by (simp add: filter_empty_conv)
    ultimately show "handleKeyDown lc s e = s"
      using run by (simp add: checkHints_def Let_def)
  }
next
  assume k: "lc (key e) = ''backspace''"
  show "handleKeyDown lc s e =
          (if inputBuffer s = [] then s else s\<lparr>inputBuffer := butlast (inputBuffer s)\<rparr>)"
    using assms k by (simp add: handleKeyDown_def Let_def)
qed

text \<open>
  With the hints \<open>a\<close> and \<open>sd\<close>: the key \<open>s\<close> leaves the buffer \<open>s\<close>, \<open>d\<close> then
  jumps to the second span, \<open>q\<close> changes nothing, and Backspace empties the buffer
  again.
\<close>

theorem handleKeyDown_active_witness:
  "handleKeyDown sampleLower (sampleState []) (keyDown ''s'') = sampleState ''s'' \<and>
   handleKeyDown sampleLower (sampleState ''s'') (keyDown ''d'') =
     (sampleState ''s'')\<lparr>hints := [], active := False,
        effects := [JumpTo sampleNode 8 3, FlashMatch []]\<rparr> \<and>
   handleKeyDown sampleLower (sampleState []) (keyDown ''q'') = sampleState [] \<and>
   handleKeyDown sampleLower (sampleState ''s'') (keyDown ''Backspace'') = sampleState []"
proof -
  have pre: "active (sampleState b)" "\<not> waitingForInput (sampleState b)"
    "\<not> repeat (keyDown k)" for b k
    by (simp_all add: sampleState_def keyDown_def)
  have alt: "key (keyDown ''s'') \<noteq> ''Alt''" "key (keyDown ''d'') \<noteq> ''Alt''"
    "key (keyDown ''q'') \<noteq> ''Alt''" "key (keyDown ''Backspace'') \<noteq> ''Alt''"
    by (simp_all add: keyDown_def)
  have "handleKeyDown sampleLower (sampleState []) (keyDown ''s'') = sampleState ''s''"
    using handleKeyDown_active [where s = "sampleState []" and e = "keyDown ''s''" and lc = sampleLower and c = "CHR ''s''"] pre alt
    by (simp add: sampleState_def keyDown_def sampleHint_def sampleLower_def sampleLowerUnit_def
        characters_def startsWith_def occursAt_def)
  moreover have "handleKeyDown sampleLower (sampleState ''s'') (keyDown ''d'') =
     (sampleState ''s'')\<lparr>hints := [], active := False,
        effects := [JumpTo sampleNode 8 3, FlashMatch []]\<rparr>"
    using handleKeyDown_active [where s = "sampleState ''s''" and e = "keyDown ''d''" and lc = sampleLower and c = "CHR ''d''"] pre alt
    by (simp add: sampleState_def keyDown_def sampleHint_def sampleLower_def sampleLowerUnit_def
        characters_def startsWith_def occursAt_def)
  moreover have "handleKeyDown sampleLower (sampleState []) (keyDown ''q'') = sampleState []"
    using handleKeyDown_active [where s = "sampleState []" and e = "keyDown ''q''" and lc = sampleLower and c = "CHR ''q''"] pre alt
    by (simp add: sampleState_def keyDown_def sampleHint_def sampleLower_def sampleLowerUnit_def
        characters_def startsWith_def occursAt_def)
  moreover have "handleKeyDown sampleLower (sampleState ''s'') (keyDown ''Backspace'') = sampleState []"
    using handleKeyDown_active [where s = "sampleState ''s''" and e = "keyDown ''Backspace''" and lc = sampleLower and c = "CHR ''x''"] pre alt
    by (simp add: sampleState_def keyDown_def sampleLower_def sampleLowerUnit_def)
  ultimately show ?thesis by blast
qed

section \<open>Properties of the pinyin search\<close>

lemma partLoop_type:
  assumes "\<forall>p\<in>set parts. lc p \<noteq> []"
  shows "\<exists>r. partLoop lc ts tp ti parts = Some r \<and>
             type_m r =
               (case find (\<lambda>p. includes_s (lc tp) p \<or> includes_s ti p) parts of
                  None \<Rightarrow> NoMatch
                | Some p \<Rightarrow> if includes_s (lc tp) p then PartialPinyin
                            else PartialInitials) \<and>
             matched r = (type_m r \<noteq> NoMatch)"
  using assms
proof (induction parts)
  case Nil
  show ?case by simp
next
  case (Cons p parts)
  then have p: "lc p \<noteq> []" by simp
  show ?case
  proof (cases "includes_s (lc tp) p")
    case True
    then show ?thesis using p by (simp add: findMatchIndices_nonempty outcome_def)
  next
    case False
    note nf = this
    show ?thesis
    proof (cases "includes_s ti p")
      case True
      then show ?thesis using p nf by (simp add: findMatchIndices_nonempty outcome_def)
    next
      case False
      with nf Cons show ?thesis by simp
    qed
  qed
qed

lemma matchPinyin_type:
  assumes "text \<noteq> []" and "query \<noteq> []"
    and "\<not> isSpace (hd query)" and "\<not> isSpace (last query)" and "lowerCasing lc"
  shows "\<exists>r. matchPinyin py lc text query = Some (Some r) \<and>
             type_m r = strategyType py lc text query \<and>
             matched r = (strategyType py lc text query \<noteq> NoMatch)"
proof -
  let ?spaced = "join '' '' (getPinyin py text)"
  let ?joined = "join [] (getPinyin py text)"
  let ?initials = "getPinyinInitials py lc text"
  let ?q = "lc query"
  from assms(2,5) have lq: "lc query \<noteq> []" by (simp add: lowerCasing_Nil)
  note fm = findMatchIndices_nonempty [of lc query, OF lq]
  show ?thesis
  proof (cases "includes_s text query")
    case True
    then show ?thesis using assms(1,2)
      by (simp add: matchPinyin_def strategyType_def Let_def fm outcome_def)
  next
    case False
    note c1 = this
    show ?thesis
    proof (cases "includes_s (lc ?spaced) ?q")
      case True
      then show ?thesis using assms(1,2) c1
        by (simp add: matchPinyin_def strategyType_def Let_def fm outcome_def)
    next
      case False
      note c2 = this
      show ?thesis
      proof (cases "includes_s (lc ?joined) ?q")
        case True
        then show ?thesis using assms(1,2) c1 c2
          by (simp add: matchPinyin_def strategyType_def Let_def fm outcome_def)
      next
        case False
        note c3 = this
        show ?thesis
        proof (cases "includes_s ?initials ?q")
          case True
          then show ?thesis using assms(1,2) c1 c2 c3
            by (simp add: matchPinyin_def strategyType_def Let_def fm outcome_def)
        next
          case False
          note c4 = this
          from split_ws_lowered_nonempty [OF assms(5,2,3,4)] assms(5)
          have "\<forall>p\<in>set (split_ws ?q). lc p \<noteq> []" by (simp add: lowerCasing_Nil)
          from partLoop_type [OF this, of "text" "?spaced" "?initials"]
          obtain r where r: "partLoop lc text ?spaced ?initials (split_ws ?q) = Some r"
            "type_m r =
               (case find (\<lambda>p. includes_s (lc ?spaced) p \<or> includes_s ?initials p)
                       (split_ws ?q) of
                  None \<Rightarrow> NoMatch
                | Some p \<Rightarrow> if includes_s (lc ?spaced) p then PartialPinyin
                            else PartialInitials)"
            "matched r = (type_m r \<noteq> NoMatch)"
            by blast
          then show ?thesis using assms(1,2) c1 c2 c3 c4
            by (simp add: matchPinyin_def strategyType_def Let_def)
        qed
      qed
    qed
  qed
qed

lemma partLoop_type_returned:
  assumes "partLoop lc ts tp ti parts = Some r"
  shows "type_m r =
           (case find (\<lambda>p. includes_s (lc tp) p \<or> includes_s ti p) parts of
              None \<Rightarrow> NoMatch
            | Some p \<Rightarrow> if includes_s (lc tp) p then PartialPinyin
                        else PartialInitials) \<and>
         matched r = (type_m r \<noteq> NoMatch)"
  using assms
proof (induction parts)
  case Nil
  then show ?case by auto
next
  case (Cons p parts)
  show ?case
  proof (cases "includes_s (lc tp) p")
    case True
    with Cons.prems show ?thesis by (auto simp: outcome_def)
  next
    case False
    note nf = this
    show ?thesis
    proof (cases "includes_s ti p")
      case True
      with Cons.prems nf show ?thesis by (auto simp: outcome_def)
    next
      case False
      with nf Cons show ?thesis by simp
    qed
  qed
qed

lemma matchPinyin_type_returned:
  assumes "matchPinyin py lc text query = Some (Some r)"
  shows "type_m r = strategyType py lc text query \<and>
         matched r = (strategyType py lc text query \<noteq> NoMatch)"
proof -
  let ?spaced = "join '' '' (getPinyin py text)"
  let ?joined = "join [] (getPinyin py text)"
  let ?initials = "getPinyinInitials py lc text"
  let ?q = "lc query"
  from assms have ne: "text \<noteq> []" "query \<noteq> []"
    by (auto simp: matchPinyin_def split: if_splits)
  show ?thesis
  proof (cases "includes_s text query \<or> includes_s (lc ?spaced) ?q \<or>
                includes_s (lc ?joined) ?q \<or> includes_s ?initials ?q")
    case True
    with assms ne show ?thesis
      by (auto simp: matchPinyin_def strategyType_def Let_def outcome_def split: if_splits)
  next
    case False
    with assms ne have "partLoop lc text ?spaced ?initials (split_ws ?q) = Some r"
      by (auto simp: matchPinyin_def Let_def)
    from partLoop_type_returned [OF this] False show ?thesis
      by (simp add: strategyType_def Let_def)
  qed
qed

text \<open>
  Claim C1. For a non-empty text and a non-empty query, every outcome \<open>matchPinyin\<close>
  returns has the type of the first strategy that succeeds in the order direct,
  space-joined romanized form, concatenated romanized form, initials, then the parts of
  the query against the space-joined form and the initials, and \<open>NoMatch\<close> when all
  fail; the result is never \<open>null\<close>. This holds whatever the lower-casing is. For a
  query that neither starts nor ends with white space, as every query token is, an
  outcome is returned, given the two facts about \<open>toLowerCase\<close> above.
\<close>

theorem matchPinyin_strategy_order:
  assumes "text \<noteq> []" and "query \<noteq> []"
  shows "(\<forall>r. matchPinyin py lc text query = Some (Some r) \<longrightarrow>
              type_m r = strategyType py lc text query \<and>
              matched r = (strategyType py lc text query \<noteq> NoMatch)) \<and>
         matchPinyin py lc text query \<noteq> Some None \<and>
         (lowerCasing lc \<and> \<not> isSpace (hd query) \<and> \<not> isSpace (last query) \<longrightarrow>
            (\<exists>r. matchPinyin py lc text query = Some (Some r)))"
proof -
  have "\<forall>r. matchPinyin py lc text query = Some (Some r) \<longrightarrow>
              type_m r = strategyType py lc text query \<and>
              matched r = (strategyType py lc text query \<noteq> NoMatch)"
    by (blast dest: matchPinyin_type_returned)
  moreover have "matchPinyin py lc text query \<noteq> Some None"
    using assms by (auto simp: matchPinyin_def Let_def)
  moreover have "lowerCasing lc \<and> \<not> isSpace (hd query) \<and> \<not> isSpace (last query) \<longrightarrow>
            (\<exists>r. matchPinyin py lc text query = Some (Some r))"
    using matchPinyin_type [OF assms, of lc py] by blast
  ultimately show ?thesis by blast
qed

text \<open>
  Three queries against a text of three units: a full match, a partial one, none.
\<close>

theorem matchPinyin_strategy_order_witness:
  "strategyType samplePinyin sampleLower [CHR ''x'', CHR 0xC4, CHR 0xBA] ''nihao'' = Pinyin \<and>
   strategyType samplePinyin sampleLower [CHR ''x'', CHR 0xC4, CHR 0xBA] ''hao ni'' = PartialPinyin \<and>
   strategyType samplePinyin sampleLower [CHR ''x'', CHR 0xC4, CHR 0xBA] ''zz'' = NoMatch \<and>
   (\<exists>r. matchPinyin samplePinyin sampleLower [CHR ''x'', CHR 0xC4, CHR 0xBA] ''nihao'' = Some (Some r) \<and>
        type_m r = Pinyin \<and> matched r) \<and>
   (\<exists>r. matchPinyin samplePinyin sampleLower [CHR ''x'', CHR 0xC4, CHR 0xBA] ''hao ni'' = Some (Some r) \<and>
        type_m r = PartialPinyin \<and> matched r) \<and>
   (\<exists>r. matchPinyin samplePinyin sampleLower [CHR ''x'', CHR 0xC4, CHR 0xBA] ''zz'' = Some (Some r) \<and>
        type_m r = NoMatch \<and> \<not> matched r)"
proof -
  have s1: "strategyType samplePinyin sampleLower [CHR ''x'', CHR 0xC4, CHR 0xBA] ''nihao'' = Pinyin"
    by code_simp
  have s2: "strategyType samplePinyin sampleLower [CHR ''x'', CHR 0xC4, CHR 0xBA] ''hao ni'' = PartialPinyin"
    by code_simp
  have s3: "strategyType samplePinyin sampleLower [CHR ''x'', CHR 0xC4, CHR 0xBA] ''zz'' = NoMatch"
    by code_simp
  have h: "[CHR ''x'', CHR 0xC4, CHR 0xBA] \<noteq> []" "''nihao'' \<noteq> []" "''hao ni'' \<noteq> []" "''zz'' \<noteq> []"
    "\<not> isSpace (hd ''nihao'')" "\<not> isSpace (last ''nihao'')"
    "\<not> isSpace (hd ''hao ni'')" "\<not> isSpace (last ''hao ni'')"
    "\<not> isSpace (hd ''zz'')" "\<not> isSpace (last ''zz'')"
    by (simp_all add: isSpace_def)
  from matchPinyin_strategy_order [OF h(1) h(2), of samplePinyin sampleLower]
    matchPinyin_strategy_order [OF h(1) h(3), of samplePinyin sampleLower]
    matchPinyin_strategy_order [OF h(1) h(4), of samplePinyin sampleLower]
  show ?thesis unfolding s1 s2 s3 using h(5-10) lowerCasing_sampleLower by auto
qed

lemma findMatchIndices_returned:
  assumes "findMatchIndices lc s p = Some idx"
  shows "idx = map int (occurrences (lc s) (lc p))"
proof (cases "lc p = []")
  case True
  with assms show ?thesis by (simp add: findMatchIndices_empty)
next
  case False
  with assms show ?thesis by (simp add: findMatchIndices_nonempty)
qed

lemma outcome_fields:
  "matched (outcome ty p ts idx)" "type_m (outcome ty p ts idx) = ty"
  "pinyin_m (outcome ty p ts idx) = p" "originalText (outcome ty p ts idx) = ts"
  "matchedIndices (outcome ty p ts idx) = idx"
  by (simp_all add: outcome_def)

lemma partLoop_indices:
  assumes "partLoop lc ts tp ti parts = Some r" and "matched r"
  shows "originalText r = ts \<and> pinyin_m r \<noteq> None \<and>
         (type_m r = PartialPinyin \<or> type_m r = PartialInitials) \<and>
         (\<exists>p\<in>set parts.
            matchedIndices r = map int (occurrences (lc (comparedString r)) (lc p)))"
  using assms
proof (induction parts)
  case Nil
  then show ?case by auto
next
  case (Cons p parts)
  show ?case
  proof (cases "includes_s (lc tp) p")
    case True
    with Cons.prems(1) obtain idx where idx: "findMatchIndices lc tp p = Some idx"
      and r: "r = outcome PartialPinyin (Some tp) ts idx"
      by auto
    from findMatchIndices_returned [OF idx] show ?thesis
      using r by (simp add: outcome_fields comparedString_def)
  next
    case False
    note nf = this
    show ?thesis
    proof (cases "includes_s ti p")
      case True
      with nf Cons.prems(1) obtain idx where idx: "findMatchIndices lc ti p = Some idx"
        and r: "r = outcome PartialInitials (Some ti) ts idx"
        by auto
      from findMatchIndices_returned [OF idx] show ?thesis
        using r by (simp add: outcome_fields comparedString_def)
    next
      case False
      with nf Cons.prems have "partLoop lc ts tp ti parts = Some r" by simp
      from Cons.IH [OF this Cons.prems(2)] show ?thesis by auto
    qed
  qed
qed

text \<open>
  What the indices of an outcome are: the offsets at which the lower-cased query, or
  the lower-cased part for the partial types, occurs in the lower-cased copy of the
  string the outcome was compared against. This holds whatever the lower-casing is.
\<close>

lemma matchPinyin_indices_lowered:
  assumes "matchPinyin py lc text query = Some (Some r)" and "matched r"
  shows "originalText r = text \<and>
         (type_m r = Direct) = (pinyin_m r = None) \<and>
         (\<exists>p. (if type_m r = PartialPinyin \<or> type_m r = PartialInitials
               then p \<in> set (split_ws (lc query)) else p = query) \<and>
              matchedIndices r = map int (occurrences (lc (comparedString r)) (lc p)))"
proof -
  let ?spaced = "join '' '' (getPinyin py text)"
  let ?joined = "join [] (getPinyin py text)"
  let ?initials = "getPinyinInitials py lc text"
  let ?q = "lc query"
  from assms(1) have ne: "text \<noteq> []" "query \<noteq> []"
    by (auto simp: matchPinyin_def split: if_splits)
  have whole: ?thesis
    if "findMatchIndices lc s query = Some idx"
      "r = outcome ty (if ty = Direct then None else Some s) text idx"
      "ty = Direct \<or> ty = Pinyin \<or> ty = Initials" "ty = Direct \<longrightarrow> s = text"
    for s idx ty
    using findMatchIndices_returned [OF that(1)] that(2,3,4)
    by (auto simp: outcome_fields comparedString_def)
  show ?thesis
  proof (cases "includes_s text query")
    case True
    with assms(1) ne obtain idx where "findMatchIndices lc text query = Some idx"
      "r = outcome Direct None text idx"
      by (auto simp: matchPinyin_def Let_def)
    then show ?thesis by (intro whole [of "text" idx Direct]) auto
  next
    case False
    note c1 = this
    show ?thesis
    proof (cases "includes_s (lc ?spaced) ?q")
      case True
      with assms(1) ne c1 obtain idx where "findMatchIndices lc ?spaced query = Some idx"
        "r = outcome Pinyin (Some ?spaced) text idx"
        by (auto simp: matchPinyin_def Let_def)
      then show ?thesis by (intro whole [of ?spaced idx Pinyin]) auto
    next
      case False
      note c2 = this
      show ?thesis
      proof (cases "includes_s (lc ?joined) ?q")
        case True
        with assms(1) ne c1 c2 obtain idx where "findMatchIndices lc ?joined query = Some idx"
          "r = outcome Pinyin (Some ?joined) text idx"
          by (auto simp: matchPinyin_def Let_def)
        then show ?thesis by (intro whole [of ?joined idx Pinyin]) auto
      next
        case False
        note c3 = this
        show ?thesis
        proof (cases "includes_s ?initials ?q")
          case True
          with assms(1) ne c1 c2 c3 obtain idx where
            "findMatchIndices lc ?initials query = Some idx"
            "r = outcome Initials (Some ?initials) text idx"
            by (auto simp: matchPinyin_def Let_def)
          then show ?thesis by (intro whole [of ?initials idx Initials]) auto
        next
          case False
          with assms(1) ne c1 c2 c3
          have "partLoop lc text ?spaced ?initials (split_ws ?q) = Some r"
            by (auto simp: matchPinyin_def Let_def)
          from partLoop_indices [OF this assms(2)] show ?thesis by auto
        qed
      qed
    qed
  qed
qed

text \<open>
  Claim C10. The claim asks that each index of a matched outcome is the offset of a
  case-insensitive occurrence of the query in the string compared against.
  \<open>findMatchIndices\<close> searches the lower-cased copy of that string and returns the
  offsets found there. Where lower-casing lengthens what comes before an occurrence
  these are not offsets of the string itself. The text here is \<open>U+0130\<close> followed by
  \<open>x\<close>, two units, and the query is \<open>x\<close>. The query occurs at offset 1. The
  outcome is direct, and its one index is 2, where the text has no unit.
\<close>

theorem matchPinyin_index_beyond_text:
  "matchPinyin samplePinyin sampleLower [CHR 0x80, CHR ''x''] ''x'' =
     Some (Some (outcome Direct None [CHR 0x80, CHR ''x''] [2])) \<and>
   length [CHR 0x80, CHR ''x''] = 2 \<and>
   ciOccursAt sampleLower [CHR 0x80, CHR ''x''] ''x'' 1 \<and>
   \<not> ciOccursAt sampleLower [CHR 0x80, CHR ''x''] ''x'' 2"
  by code_simp

text \<open>
  A query that ends with white space has an empty last part; when the search gets that
  far the call does not return.
\<close>

lemma matchPinyin_trailing_space: "matchPinyin samplePinyin sampleLower ''x'' ''y '' = None"
proof -
  have l: "sampleLower ''y '' = ''y ''" "sampleLower ''x'' = ''x''" "sampleLower [] = []"
    by (simp_all add: sampleLower_def sampleLowerUnit_def)
  have "split_ws ''y '' = [''y'', []]"
    by (simp add: split_ws_def isSpace_def)
  moreover have "\<not> includes_s ''x'' ''y ''" "\<not> includes_s ''x'' ''y''"
    by (simp_all add: includes_s_iff occursAt_def)
  moreover have "includes_s ''x'' []" by (auto simp: includes_s_iff occursAt_def)
  ultimately show ?thesis
    by (simp add: matchPinyin_def Let_def samplePinyin_def getPinyin_def getPinyinInitials_def
        l findMatchIndices_empty)
qed

section \<open>Properties of the collector\<close>

lemma extends_refl: "extends nd acc acc"
  by (simp add: extends_def)

lemma extends_trans: "extends nd a b \<Longrightarrow> extends nd b c \<Longrightarrow> extends nd a c"
  by (fastforce simp: extends_def)

lemma pushMatch_extends:
  assumes "0 \<le> start" "0 \<le> len" "start + len \<le> int (length (nodeValue nd))"
  shows "extends nd acc (pushMatch vb iw nd start e len pm acc)"
  using assms
  by (auto simp: pushMatch_def extends_def emitted_def split: list.splits)

lemma directBody_extends: "extends nd acc (directBody vb iw nd keyword i acc)"
  by (simp add: directBody_def Let_def pushMatch_extends extends_refl)

lemma pinyinBody_extends: "extends nd acc (pinyinBody vb iw nd keyword r acc i)"
  by (simp add: pinyinBody_def Let_def pushMatch_extends extends_refl)

lemma enhancedBody_extends:
  "0 \<le> i \<Longrightarrow> i < int (length (nodeValue nd)) \<Longrightarrow>
   extends nd acc (enhancedBody vb iw nd keyword acc i)"
  by (simp add: enhancedBody_def Let_def pushMatch_extends)

lemma foldl_extends:
  "(\<And>a x. x \<in> set xs \<Longrightarrow> extends nd a (f a x)) \<Longrightarrow> extends nd acc (foldl f acc xs)"
proof (induction xs arbitrary: acc)
  case Nil
  show ?case by (simp add: extends_refl)
next
  case (Cons x xs)
  have "extends nd acc (f acc x)" by (rule Cons.prems) simp
  moreover have "extends nd (f acc x) (foldl f (f acc x) xs)"
    by (rule Cons.IH) (simp add: Cons.prems)
  ultimately show ?case by (auto intro: extends_trans)
qed

lemma indexLoop_first_some:
  "q \<noteq> [] \<Longrightarrow>
   indexLoop body t q (indexOf t q 0) acc =
     Some (foldl (\<lambda>a k. body (int k) a) acc (occurrences t q))"
  using indexLoop_nonempty [of q body t 0 acc] by (simp add: occurrences_def del: upt_Suc)

lemma indexLoop_first_none: "indexLoop body t [] (indexOf t [] 0) acc = None"
  by (rule indexLoop_empty_diverges) (simp add: indexOf_empty)

lemma indexLoop_first:
  assumes "indexLoop body t q (indexOf t q 0) acc = Some r"
  shows "q \<noteq> [] \<and> r = foldl (\<lambda>a k. body (int k) a) acc (occurrences t q)"
proof (cases "q = []")
  case True
  with assms show ?thesis by (simp add: indexLoop_first_none)
next
  case False
  with assms show ?thesis by (simp add: indexLoop_first_some)
qed

lemma findEnhancedMatchIndices_range:
  assumes "findEnhancedMatchIndices py lc text query = Some idxs"
  shows "\<forall>i\<in>set idxs. 0 \<le> i \<and> i < int (length text)"
  using assms
  by (auto simp: findEnhancedMatchIndices_def Let_def split: option.splits if_splits)

lemma findEnhancedMatchIndices_returns:
  assumes "lc query \<noteq> []"
  shows "\<exists>idxs. findEnhancedMatchIndices py lc text query = Some idxs"
  using assms by (simp add: findEnhancedMatchIndices_def Let_def indexLoop_first_some)

lemma enhancedStep_extends:
  assumes "enhancedStep py lc vb iw nd keyword acc = Some r"
  shows "extends nd acc r"
proof -
  from assms obtain idxs where
    i: "findEnhancedMatchIndices py lc (nodeValue nd) keyword = Some idxs"
    and r: "r = foldl (enhancedBody vb iw nd keyword) acc idxs"
    by (auto simp: enhancedStep_def)
  from findEnhancedMatchIndices_range [OF i] show ?thesis
    unfolding r by (intro foldl_extends enhancedBody_extends) auto
qed

lemma keywordLoop_extends:
  "keywordLoop py lc vb iw nd kws acc = Some r \<Longrightarrow> extends nd acc r"
proof (induction kws arbitrary: acc)
  case Nil
  then show ?case by (simp add: extends_refl)
next
  case (Cons keyword kws)
  show ?case
  proof (cases "keyword = []")
    case True
    with Cons show ?thesis by simp
  next
    case False
    note ne = this
    let ?t = "lc (nodeValue nd)" and ?k = "lc keyword"
    show ?thesis
    proof (cases "includes_s ?t ?k")
      case True
      with Cons.prems ne obtain mid where
        m: "indexLoop (directBody vb iw nd keyword) ?t ?k (indexOf ?t ?k 0) acc = Some mid"
        and k: "keywordLoop py lc vb iw nd kws mid = Some r"
        by (auto simp: Let_def split: option.splits)
      have "extends nd acc mid"
        using indexLoop_first [OF m] by (simp add: foldl_extends directBody_extends)
      with Cons.IH [OF k] show ?thesis by (auto intro: extends_trans)
    next
      case False
      with Cons.prems ne obtain mr mid where
        mr: "matchPinyin py lc (nodeValue nd) keyword = Some mr"
        and mid: "(case mr of
                     None \<Rightarrow> enhancedStep py lc vb iw nd keyword acc
                   | Some r \<Rightarrow>
                       if matched r \<and> length (matchedIndices r) > 0
                       then Some (foldl (pinyinBody vb iw nd keyword r) acc (matchedIndices r))
                       else enhancedStep py lc vb iw nd keyword acc) = Some mid"
        and k: "keywordLoop py lc vb iw nd kws mid = Some r"
        by (auto simp: Let_def split: option.splits)
      have "extends nd acc mid"
      proof (cases mr)
        case None
        with mid show ?thesis by (simp add: enhancedStep_extends)
      next
        case (Some pr)
        show ?thesis
        proof (cases "matched pr \<and> length (matchedIndices pr) > 0")
          case True
          with mid Some have "mid = foldl (pinyinBody vb iw nd keyword pr) acc (matchedIndices pr)"
            by simp
          then show ?thesis by (simp add: foldl_extends pinyinBody_extends)
        next
          case False
          with mid Some show ?thesis by (auto simp: enhancedStep_extends)
        qed
      qed
      with Cons.IH [OF k] show ?thesis by (auto intro: extends_trans)
    qed
  qed
qed

lemma extends_inBounds:
  "extends nd acc r \<Longrightarrow> \<forall>m\<in>set acc. inBounds m \<Longrightarrow> \<forall>m\<in>set r. inBounds m"
  by (auto simp: extends_def emitted_def inBounds_def)

lemma nodeLoop_Cons:
  "nodeLoop py lc vb iw kws (nd # nodes) acc =
     (case nodeStep py lc vb iw kws nd acc of
        None \<Rightarrow> None
      | Some (stop, mid) \<Rightarrow> if stop then Some mid else nodeLoop py lc vb iw kws nodes mid)"
  by (auto simp: nodeStep_def split: option.splits)

lemma nodeStep_result:
  assumes "nodeStep py lc vb iw kws nd acc = Some (stop, mid)"
  shows "extends nd acc mid \<and> (stop \<longrightarrow> length mid > 300) \<and>
         (\<not> stop \<longrightarrow> mid = acc \<or> length mid \<le> 300)"
  using assms
  by (auto simp: nodeStep_def extends_refl keywordLoop_extends split: if_splits option.splits)

lemma nodeLoop_inBounds:
  "nodeLoop py lc vb iw kws nodes acc = Some r \<Longrightarrow> \<forall>m\<in>set acc. inBounds m \<Longrightarrow>
   \<forall>m\<in>set r. inBounds m"
proof (induction nodes arbitrary: acc)
  case Nil
  then show ?case by simp
next
  case (Cons nd nodes)
  from Cons.prems(1) obtain stop mid where
    st: "nodeStep py lc vb iw kws nd acc = Some (stop, mid)"
    and r: "(if stop then Some mid else nodeLoop py lc vb iw kws nodes mid) = Some r"
    by (auto simp del: nodeLoop.simps simp add: nodeLoop_Cons split: option.splits)
  from nodeStep_result [OF st] Cons.prems(2) have b: "\<forall>m\<in>set mid. inBounds m"
    by (blast intro: extends_inBounds [rule_format])
  show ?case
  proof (cases stop)
    case True
    with r b show ?thesis by simp
  next
    case False
    with r have "nodeLoop py lc vb iw kws nodes mid = Some r" by simp
    from Cons.IH [OF this b] show ?thesis .
  qed
qed

lemma nodeLoop_stop:
  "nodeLoop py lc vb iw kws ns1 acc = Some r \<Longrightarrow> length acc \<le> 300 \<Longrightarrow> length r > 300 \<Longrightarrow>
   nodeLoop py lc vb iw kws (ns1 @ ns2) acc = Some r"
proof (induction ns1 arbitrary: acc)
  case Nil
  then show ?case by simp
next
  case (Cons nd ns1)
  from Cons.prems(1) obtain stop mid where
    st: "nodeStep py lc vb iw kws nd acc = Some (stop, mid)"
    and r: "(if stop then Some mid else nodeLoop py lc vb iw kws ns1 mid) = Some r"
    by (auto simp del: nodeLoop.simps simp add: nodeLoop_Cons split: option.splits)
  show ?case
  proof (cases stop)
    case True
    with r st show ?thesis by (simp del: nodeLoop.simps add: nodeLoop_Cons)
  next
    case False
    with r have n: "nodeLoop py lc vb iw kws ns1 mid = Some r" by simp
    from nodeStep_result [OF st] False Cons.prems(2) have "length mid \<le> 300" by auto
    from Cons.IH [OF n this Cons.prems(3)] st False show ?thesis
      by (simp del: nodeLoop.simps add: nodeLoop_Cons)
  qed
qed

lemma matchPinyin_returns:
  assumes "lowerCasing lc" and "queryToken k"
  shows "\<exists>mr. matchPinyin py lc t k = Some mr"
proof (cases "t = []")
  case True
  then show ?thesis by (simp add: matchPinyin_def)
next
  case False
  from assms(2) have "k \<noteq> []" "\<not> isSpace (hd k)" "\<not> isSpace (last k)"
    by (simp_all add: queryToken_def)
  from matchPinyin_type [OF False this assms(1), where py = py] show ?thesis by auto
qed

lemma queryLoop_returns:
  "lowerCasing lc \<Longrightarrow> \<forall>k\<in>set kws. k = [] \<or> queryToken k \<Longrightarrow>
   \<exists>b. queryLoop py lc t kws = Some b"
proof (induction kws)
  case Nil
  show ?case by auto
next
  case (Cons k kws)
  then obtain b where b: "queryLoop py lc t kws = Some b" by auto
  show ?case
  proof (cases "k = []")
    case True
    with b show ?thesis by simp
  next
    case False
    with Cons.prems have "queryToken k" by simp
    from matchPinyin_returns [OF Cons.prems(1) this, where py = py and t = t] obtain mr where
      "matchPinyin py lc t k = Some mr" by blast
    with b False show ?thesis by auto
  qed
qed

lemma enhancedMatch_returns:
  assumes "lowerCasing lc" and "\<forall>k\<in>set kws. k = [] \<or> queryToken k"
  shows "\<exists>b. enhancedMatch py lc t kws = Some b"
  using queryLoop_returns [OF assms, where py = py and t = t] by (auto simp: enhancedMatch_def)

lemma enhancedStep_returns:
  "lc keyword \<noteq> [] \<Longrightarrow> \<exists>r. enhancedStep py lc vb iw nd keyword acc = Some r"
  using findEnhancedMatchIndices_returns [of lc keyword py "nodeValue nd"]
  by (auto simp: enhancedStep_def)

lemma keywordLoop_returns:
  "lowerCasing lc \<Longrightarrow> \<forall>k\<in>set kws. k = [] \<or> queryToken k \<Longrightarrow>
   \<exists>r. keywordLoop py lc vb iw nd kws acc = Some r"
proof (induction kws arbitrary: acc)
  case Nil
  show ?case by simp
next
  case (Cons k kws)
  then have ih: "\<And>acc. \<exists>r. keywordLoop py lc vb iw nd kws acc = Some r" by simp
  show ?case
  proof (cases "k = []")
    case True
    with ih show ?thesis by simp
  next
    case False
    with Cons.prems have tk: "queryToken k" by simp
    from False Cons.prems(1) have lk: "lc k \<noteq> []" by (simp add: lowerCasing_Nil)
    from matchPinyin_returns [OF Cons.prems(1) tk, where py = py and t = "nodeValue nd"]
    obtain mr where mr: "matchPinyin py lc (nodeValue nd) k = Some mr" by blast
    from enhancedStep_returns [where lc = lc and keyword = k and py = py and vb = vb
        and iw = iw and nd = nd and acc = acc, OF lk]
    obtain e where e: "enhancedStep py lc vb iw nd k acc = Some e" by blast
    show ?thesis
      using False mr e ih
      by (auto simp: Let_def indexLoop_first_some [OF lk] split: option.splits)
  qed
qed

lemma nodeStep_returns:
  assumes "lowerCasing lc" and "\<forall>k\<in>set kws. k = [] \<or> queryToken k"
  shows "\<exists>res. nodeStep py lc vb iw kws nd acc = Some res"
proof -
  from enhancedMatch_returns [OF assms, where py = py and t = "nodeValue nd"] obtain b where
    b: "enhancedMatch py lc (nodeValue nd) kws = Some b" by blast
  from keywordLoop_returns [OF assms, where py = py and vb = vb and iw = iw and nd = nd
      and acc = acc]
  obtain mid where mid: "keywordLoop py lc vb iw nd kws acc = Some mid" by blast
  show ?thesis using b mid by (auto simp: nodeStep_def)
qed

lemma nodeLoop_returns:
  "lowerCasing lc \<Longrightarrow> \<forall>k\<in>set kws. k = [] \<or> queryToken k \<Longrightarrow>
   \<exists>r. nodeLoop py lc vb iw kws nodes acc = Some r"
proof (induction nodes arbitrary: acc)
  case Nil
  show ?case by simp
next
  case (Cons nd nodes)
  then have ih: "\<And>acc. \<exists>r. nodeLoop py lc vb iw kws nodes acc = Some r" by simp
  from nodeStep_returns [OF Cons.prems, where py = py and vb = vb and iw = iw and nd = nd
      and acc = acc]
  obtain stop mid where
    "nodeStep py lc vb iw kws nd acc = Some (stop, mid)" by (cases) auto
  with ih [of mid] show ?case by (auto simp del: nodeLoop.simps simp add: nodeLoop_Cons)
qed

text \<open>The direct branch of the loop over the keywords.\<close>

lemma foldl_directBody:
  "foldl (\<lambda>a k. directBody vb iw nd keyword (int k) a) acc ks =
     acc @ map (directMatch nd keyword)
             (filter (\<lambda>k. int k + int (length keyword) \<le> int (length (nodeValue nd)) \<and>
                          firstRectVisible vb iw nd (int k) (int k + int (length keyword)))
                ks)"
proof (induction ks arbitrary: acc)
  case Nil
  show ?case by simp
next
  case (Cons k ks)
  have "directBody vb iw nd keyword (int k) acc =
     acc @ map (directMatch nd keyword)
             (filter (\<lambda>k. int k + int (length keyword) \<le> int (length (nodeValue nd)) \<and>
                          firstRectVisible vb iw nd (int k) (int k + int (length keyword)))
                [k])"
    by (auto simp: directBody_def pushMatch_def firstRectVisible_def directMatch_def Let_def
        split: list.splits)
  with Cons show ?case by simp
qed

lemma keywordLoop_direct:
  assumes "keyword \<noteq> []" and "lc keyword \<noteq> []"
    and "includes_s (lc (nodeValue nd)) (lc keyword)"
  shows "keywordLoop py lc vb iw nd (keyword # kws) acc =
         keywordLoop py lc vb iw nd kws (acc @ directMatches lc vb iw nd keyword)"
  using assms(1,3)
  by (simp add: Let_def indexLoop_first_some [OF assms(2)] directMatches_def foldl_directBody)

lemma keywordLoop_append:
  "keywordLoop py lc vb iw nd (xs @ ys) acc =
     (case keywordLoop py lc vb iw nd xs acc of
        None \<Rightarrow> None
      | Some mid \<Rightarrow> keywordLoop py lc vb iw nd ys mid)"
proof (induction xs arbitrary: acc)
  case Nil
  show ?case by simp
next
  case (Cons x xs)
  show ?case
  proof (cases "x = []")
    case True
    with Cons show ?thesis by simp
  next
    case False
    show ?thesis
    proof (cases "includes_s (lc (nodeValue nd)) (lc x)")
      case True
      with False Cons show ?thesis by (simp add: Let_def split: option.splits)
    next
      case False
      with \<open>x \<noteq> []\<close> Cons show ?thesis by (simp add: Let_def split: option.splits)
    qed
  qed
qed

lemma directMatches_same_length:
  assumes "length (lc (nodeValue nd)) = length (nodeValue nd)"
    and "length (lc keyword) = length keyword"
  shows "directMatches lc vb iw nd keyword =
         map (directMatch nd keyword)
           (filter (\<lambda>k. firstRectVisible vb iw nd (int k) (int k + int (length keyword)))
              (occurrences (lc (nodeValue nd)) (lc keyword)))"
proof -
  have "filter (\<lambda>k. int k + int (length keyword) \<le> int (length (nodeValue nd)) \<and>
                    firstRectVisible vb iw nd (int k) (int k + int (length keyword)))
          (occurrences (lc (nodeValue nd)) (lc keyword)) =
        filter (\<lambda>k. firstRectVisible vb iw nd (int k) (int k + int (length keyword)))
          (occurrences (lc (nodeValue nd)) (lc keyword))"
    using assms by (intro filter_cong) (auto simp: occurrences_iff occursAt_def)
  then show ?thesis by (simp add: directMatches_def)
qed

text \<open>
  The test in front of the loop over the keywords: a keyword with a direct occurrence
  makes it succeed, unless an earlier keyword keeps it from returning, and then the
  loop over the keywords would not return either.
\<close>

lemma queryLoop_direct:
  "keyword \<in> set kws \<Longrightarrow> keyword \<noteq> [] \<Longrightarrow> includes_s (lc t) (lc keyword) \<Longrightarrow>
   queryLoop py lc t kws \<noteq> Some False"
proof (induction kws)
  case Nil
  then show ?case by simp
next
  case (Cons k kws)
  show ?case
  proof (cases "k = keyword")
    case True
    with Cons.prems show ?thesis by simp
  next
    case False
    with Cons have "queryLoop py lc t kws \<noteq> Some False" by simp
    then show ?thesis by (auto split: option.splits)
  qed
qed

lemma queryLoop_None:
  "queryLoop py lc (nodeValue nd) kws = None \<Longrightarrow> keywordLoop py lc vb iw nd kws acc = None"
proof (induction kws arbitrary: acc)
  case Nil
  then show ?case by simp
next
  case (Cons k kws)
  show ?case
  proof (cases "k = []")
    case True
    with Cons show ?thesis by simp
  next
    case False
    note ne = this
    show ?thesis
    proof (cases "includes_s (lc (nodeValue nd)) (lc k)")
      case True
      with ne Cons.prems show ?thesis by simp
    next
      case False
      note ni = this
      show ?thesis
      proof (cases "matchPinyin py lc (nodeValue nd) k")
        case None
        with ne ni show ?thesis by (simp add: Let_def)
      next
        case (Some mr)
        with ne ni Cons.prems have "queryLoop py lc (nodeValue nd) kws = None"
          by (auto split: if_splits)
        then have "\<And>acc. keywordLoop py lc vb iw nd kws acc = None" by (rule Cons.IH)
        with ne ni Some show ?thesis by (simp add: Let_def split: option.splits)
      qed
    qed
  qed
qed

lemma nodeLoop_scanned:
  assumes "scanned vb nd" and "nodeValue nd \<noteq> []"
    and "keyword \<in> set kws" and "keyword \<noteq> []"
    and "includes_s (lc (nodeValue nd)) (lc keyword)"
  shows "nodeLoop py lc vb iw kws (nd # nodes) acc =
         (case keywordLoop py lc vb iw nd kws acc of
            None \<Rightarrow> None
          | Some mid \<Rightarrow>
              if length mid > 300 then Some mid else nodeLoop py lc vb iw kws nodes mid)"
proof -
  from assms(3) have kws: "kws \<noteq> []" by auto
  from assms(1) have g: "hasParent nd" "\<not> inTags nd" "hasContainer nd \<or> isInsertBtn nd"
    "\<not> (parentRect_bottom nd < 0 \<or> parentRect_top nd > vb)"
    by (auto simp: scanned_def)
  have em: "enhancedMatch py lc (nodeValue nd) kws = queryLoop py lc (nodeValue nd) kws"
    using assms(2) kws by (simp add: enhancedMatch_def)
  show ?thesis
  proof (cases "queryLoop py lc (nodeValue nd) kws")
    case None
    from queryLoop_None [OF this] have "keywordLoop py lc vb iw nd kws acc = None" .
    with None em g assms(2) show ?thesis by auto
  next
    case (Some b)
    with queryLoop_direct [OF assms(3,4,5), where py = py] have "b" by simp
    with Some em g assms(2) show ?thesis by auto
  qed
qed

text \<open>One node, and the loop over the nodes as it goes on.\<close>

lemma nodeLoop_single:
  "nodeLoop py lc vb iw kws [nd] acc = spanCandidates py lc vb iw kws nd acc"
  by (auto simp: spanCandidates_def split: option.splits)

lemma spanCandidates_nodeStep:
  "spanCandidates py lc vb iw kws nd acc = map_option snd (nodeStep py lc vb iw kws nd acc)"
  by (auto simp: spanCandidates_def nodeStep_def option.map_comp comp_def option.map_ident
      split: option.splits)

lemma nodeLoop_continue:
  "nodeLoop py lc vb iw kws ns1 acc = Some r \<Longrightarrow> length r \<le> 300 \<Longrightarrow>
   nodeLoop py lc vb iw kws (ns1 @ ns2) acc = nodeLoop py lc vb iw kws ns2 r"
proof (induction ns1 arbitrary: acc)
  case Nil
  then show ?case by simp
next
  case (Cons nd ns1)
  from Cons.prems(1) obtain stop mid where
    st: "nodeStep py lc vb iw kws nd acc = Some (stop, mid)"
    and r: "(if stop then Some mid else nodeLoop py lc vb iw kws ns1 mid) = Some r"
    by (auto simp del: nodeLoop.simps simp add: nodeLoop_Cons split: option.splits)
  show ?case
  proof (cases stop)
    case True
    with r have "r = mid" by simp
    with nodeStep_result [OF st] True Cons.prems(2) show ?thesis by simp
  next
    case False
    with r have n: "nodeLoop py lc vb iw kws ns1 mid = Some r" by simp
    from Cons.IH [OF n Cons.prems(2)] st False show ?thesis
      by (simp del: nodeLoop.simps add: nodeLoop_Cons)
  qed
qed

lemma nodeLoop_last_span:
  "nodeLoop py lc vb iw kws nodes acc = Some r \<Longrightarrow> length acc \<le> 300 \<Longrightarrow> length r > 300 \<Longrightarrow>
   \<exists>ns1 nd ns2 ms0. nodes = ns1 @ nd # ns2 \<and>
      nodeLoop py lc vb iw kws ns1 acc = Some ms0 \<and> length ms0 \<le> 300 \<and>
      spanCandidates py lc vb iw kws nd ms0 = Some r"
proof (induction nodes arbitrary: acc)
  case Nil
  then show ?case by simp
next
  case (Cons nd nodes)
  from Cons.prems(1) obtain stop mid where
    st: "nodeStep py lc vb iw kws nd acc = Some (stop, mid)"
    and r: "(if stop then Some mid else nodeLoop py lc vb iw kws nodes mid) = Some r"
    by (auto simp del: nodeLoop.simps simp add: nodeLoop_Cons split: option.splits)
  show ?case
  proof (cases stop)
    case True
    with r have "r = mid" by simp
    with st have "spanCandidates py lc vb iw kws nd acc = Some r"
      by (simp add: spanCandidates_nodeStep)
    moreover have "nd # nodes = [] @ nd # nodes" by simp
    moreover have "nodeLoop py lc vb iw kws [] acc = Some acc" by simp
    ultimately show ?thesis using Cons.prems(2) by blast
  next
    case False
    with r have n: "nodeLoop py lc vb iw kws nodes mid = Some r" by simp
    from nodeStep_result [OF st] False Cons.prems(2) have "length mid \<le> 300" by auto
    from Cons.IH [OF n this Cons.prems(3)] obtain ns1 nd' ns2 ms0 where
      d: "nodes = ns1 @ nd' # ns2" and p: "nodeLoop py lc vb iw kws ns1 mid = Some ms0"
      and l: "length ms0 \<le> 300" and s: "spanCandidates py lc vb iw kws nd' ms0 = Some r"
      by blast
    from p st False have "nodeLoop py lc vb iw kws (nd # ns1) acc = Some ms0"
      by (simp del: nodeLoop.simps add: nodeLoop_Cons)
    moreover from d have "nd # nodes = (nd # ns1) @ nd' # ns2" by simp
    ultimately show ?thesis using l s by blast
  qed
qed

text \<open>The sample line of letters.\<close>

lemma occursAt_unit: "occursAt t [c] k \<longleftrightarrow> k < length t \<and> t ! k = c"
  by (cases "k < length t")
     (auto simp: occursAt_def take_Suc_conv_app_nth hd_drop_conv_nth take_Suc)

lemma occurrences_replicate: "occurrences (replicate n c) [c] = [0..<n]"
proof -
  have "filter (occursAt (replicate n c) [c]) [0..<Suc n] = filter (\<lambda>k. k < n) [0..<Suc n]"
    by (rule filter_cong) (auto simp: occursAt_unit)
  also have "\<dots> = [0..<n]" by simp
  finally show ?thesis by (simp add: occurrences_def del: upt_Suc)
qed

lemma sampleLower_replicate: "sampleLower (replicate n CHR ''a'') = replicate n CHR ''a''"
  by (induction n) (simp_all add: sampleLower_def sampleLowerUnit_def)

lemma rowNode_span:
  assumes "0 < n" and "7 * real n \<le> iw" and "0 \<le> vb"
  shows "spanCandidates py sampleLower vb iw [''a''] (rowNode n) acc =
         Some (acc @ map (directMatch (rowNode n) ''a'') [0..<n])"
proof -
  let ?nd = "rowNode n"
  have lt: "sampleLower (nodeValue ?nd) = replicate n CHR ''a''"
    by (simp add: rowNode_def sampleLower_replicate)
  have lk: "sampleLower ''a'' = ''a''" by (simp add: sampleLower_def sampleLowerUnit_def)
  have inc: "includes_s (sampleLower (nodeValue ?nd)) (sampleLower ''a'')"
    using assms(1) by (simp add: lt lk includes_s_unit)
  have len: "length (nodeValue ?nd) = n" by (simp add: rowNode_def)
  have vis: "filter (\<lambda>k. int k + int (length ''a'') \<le> int (length (nodeValue ?nd)) \<and>
                        firstRectVisible vb iw ?nd (int k) (int k + int (length ''a'')))
               [0..<n] = [0..<n]"
    unfolding len using assms
    by (auto simp: firstRectVisible_def rowNode_def inViewport_def filter_id_conv)
  have dm: "directMatches sampleLower vb iw ?nd ''a'' = map (directMatch ?nd ''a'') [0..<n]"
    by (simp only: directMatches_def lt lk occurrences_replicate vis)
  have kl: "keywordLoop py sampleLower vb iw ?nd [''a''] acc =
            Some (acc @ directMatches sampleLower vb iw ?nd ''a'')"
    using keywordLoop_direct [where lc = sampleLower and keyword = "''a''" and nd = ?nd
        and py = py and vb = vb and iw = iw and kws = "[]" and acc = acc, OF _ _ inc]
    by (simp add: lk)
  have em: "enhancedMatch py sampleLower (nodeValue ?nd) [''a''] = Some True"
    using inc assms(1) by (simp add: enhancedMatch_def rowNode_def)
  have f: "hasParent ?nd" "\<not> inTags ?nd" "hasContainer ?nd" "nodeValue ?nd \<noteq> []"
    "\<not> (parentRect_bottom ?nd < 0 \<or> parentRect_top ?nd > vb)"
    using assms by (simp_all add: rowNode_def)
  show ?thesis
    by (simp add: spanCandidates_def f em kl dm del: keywordLoop.simps)
qed

lemma rowNode_collected:
  assumes "0 < n" and "7 * real n \<le> iw" and "0 \<le> vb"
  shows "findVisibleMatchesWithPinyin py sampleLower vb iw [rowNode n] [''a''] =
         Some (map (directMatch (rowNode n) ''a'') [0..<n])"
  using rowNode_span [OF assms, where py = py and acc = "[]"]
  by (simp only: findVisibleMatchesWithPinyin_def nodeLoop_single append_Nil)

text \<open>
  The keywords a session starts with are query tokens, so the collector returns on them.
\<close>

lemma splitLoop_no_space:
  "\<forall>c\<in>set cur. \<not> isSpace c \<Longrightarrow> \<forall>p\<in>set (splitLoop s cur). \<forall>c\<in>set p. \<not> isSpace c"
proof (induction s cur rule: splitLoop.induct)
  case (1 cur)
  then show ?case by simp
next
  case (2 c cs cur)
  show ?case
  proof (cases "isSpace c")
    case True
    have "\<forall>p\<in>set (splitLoop (dropWhile isSpace cs) []). \<forall>c\<in>set p. \<not> isSpace c"
      by (rule 2(1) [OF True]) simp
    with True 2(3) show ?thesis by simp
  next
    case False
    have "\<forall>p\<in>set (splitLoop cs (cur @ [c])). \<forall>c\<in>set p. \<not> isSpace c"
      using 2(3) False by (intro 2(2) [OF False]) auto
    with False show ?thesis by simp
  qed
qed

lemma trim_ends:
  assumes "trim s \<noteq> []"
  shows "\<not> isSpace (hd (trim s)) \<and> \<not> isSpace (last (trim s))"
proof -
  let ?u = "dropWhile isSpace s"
  let ?w = "dropWhile isSpace (rev ?u)"
  from assms have w: "?w \<noteq> []" by (simp add: trim_def)
  have u: "?u \<noteq> []"
  proof
    assume "?u = []"
    with w show False by simp
  qed
  from w have "\<not> isSpace (hd ?w)" by (rule hd_dropWhile)
  then have l: "\<not> isSpace (last (trim s))" using w by (simp add: trim_def last_rev)
  have "last ?w = last (rev ?u)"
    using w by (metis takeWhile_dropWhile_id last_appendR)
  also have "\<dots> = hd ?u" using u by (simp add: last_rev)
  finally have "hd (trim s) = hd ?u" using w by (simp add: trim_def hd_rev)
  moreover from u have "\<not> isSpace (hd ?u)" by (rule hd_dropWhile)
  ultimately show ?thesis using l by simp
qed

lemma submittedKeywords_tokens:
  assumes "submittedKeywords inputValue = Some kws"
  shows "\<forall>k\<in>set kws. queryToken k"
proof
  fix k assume k: "k \<in> set kws"
  let ?v = "trim inputValue"
  from assms have v: "?v \<noteq> []" and kws: "kws = splitLoop ?v []"
    by (auto simp: submittedKeywords_def Let_def split_ws_def split: if_splits)
  from trim_ends [OF v] v have "\<forall>p\<in>set (splitLoop ?v []). p \<noteq> []"
    by (intro splitLoop_nonempty) auto
  with k kws have ne: "k \<noteq> []" by simp
  have "\<forall>p\<in>set (splitLoop ?v []). \<forall>c\<in>set p. \<not> isSpace c"
    by (rule splitLoop_no_space) simp
  with k kws have "\<forall>c\<in>set k. \<not> isSpace c" by simp
  with ne show "queryToken k" by (simp add: queryToken_def)
qed

lemma collector_returns_on_submitted:
  assumes "lowerCasing lc" and "submittedKeywords inputValue = Some kws"
  shows "findVisibleMatches py lc vb iw nodes kws \<noteq> None"
proof -
  from submittedKeywords_tokens [OF assms(2)]
  have "\<forall>k\<in>set kws. k = [] \<or> queryToken k" by simp
  from nodeLoop_returns [OF assms(1) this, where py = py and vb = vb and iw = iw
      and nodes = nodes and acc = "[]"]
  show ?thesis
    by (auto simp: findVisibleMatches_def findVisibleMatchesWithPinyin_def)
qed

text \<open>
  Claim C4, as amended. The collector compares the lower-cased keyword with the
  lower-cased text of the node, and the offsets it uses are those of the lower-cased
  text. Let lower-casing change the length of neither the text nor the keyword, and let
  the lower-cased keyword, not empty, occur in the lower-cased text. Then the work on
  that keyword for that node adds exactly the direct candidates: one for each offset of
  an occurrence whose range has a first client rectangle inside the viewport, in
  increasing order of offset, each on that node, with the length of the keyword and
  tagged direct. Nothing else is added for that keyword, whatever the romanizer would
  answer and wherever the keyword stands among the keywords. A node is worked on when it
  has a parent element outside the tag area, lies in a text container or an insert
  button, and its parent's rectangle meets the viewport vertically; then the loop over
  the nodes runs the loop over the keywords on it. For one node and one keyword the
  collector returns the direct candidates when the node is worked on and nothing
  otherwise.
\<close>

theorem collector_direct_exclusive:
  assumes "keyword \<noteq> []"
    and "includes_s (lc (nodeValue nd)) (lc keyword)"
    and "length (lc (nodeValue nd)) = length (nodeValue nd)"
    and "length (lc keyword) = length keyword"
  shows "keywordLoop py lc vb iw nd (pre @ keyword # post) acc =
           (case keywordLoop py lc vb iw nd pre acc of
              None \<Rightarrow> None
            | Some mid \<Rightarrow>
                keywordLoop py lc vb iw nd post (mid @ directMatches lc vb iw nd keyword)) \<and>
         (scanned vb nd \<longrightarrow>
            nodeLoop py lc vb iw (pre @ keyword # post) (nd # nodes) acc =
              (case keywordLoop py lc vb iw nd (pre @ keyword # post) acc of
                 None \<Rightarrow> None
               | Some mid \<Rightarrow>
                   if length mid > 300 then Some mid
                   else nodeLoop py lc vb iw (pre @ keyword # post) nodes mid)) \<and>
         findVisibleMatchesWithPinyin py lc vb iw [nd] [keyword] =
           Some (if scanned vb nd then directMatches lc vb iw nd keyword else []) \<and>
         map index (directMatches lc vb iw nd keyword) =
           map int (filter (\<lambda>k. firstRectVisible vb iw nd (int k) (int k + int (length keyword)))
                      (occurrences (lc (nodeValue nd)) (lc keyword))) \<and>
         (\<forall>m\<in>set (directMatches lc vb iw nd keyword).
            node m = nd \<and> length_m m = int (length keyword) \<and>
            map_option type_m (pinyinMatch m) = Some Direct)"
proof -
  from assms(1,4) have lk: "lc keyword \<noteq> []" by auto
  from assms(2) lk have "lc (nodeValue nd) \<noteq> []"
    by (auto simp: includes_s_iff occursAt_def)
  with assms(3) have tx: "nodeValue nd \<noteq> []" by auto
  note kd = keywordLoop_direct [OF assms(1) lk assms(2)]
  have one: "keywordLoop py lc vb iw nd (pre @ keyword # post) acc =
           (case keywordLoop py lc vb iw nd pre acc of
              None \<Rightarrow> None
            | Some mid \<Rightarrow>
                keywordLoop py lc vb iw nd post (mid @ directMatches lc vb iw nd keyword))"
    by (simp only: keywordLoop_append kd)
  have two: "scanned vb nd \<longrightarrow>
            nodeLoop py lc vb iw (pre @ keyword # post) (nd # nodes) acc =
              (case keywordLoop py lc vb iw nd (pre @ keyword # post) acc of
                 None \<Rightarrow> None
               | Some mid \<Rightarrow>
                   if length mid > 300 then Some mid
                   else nodeLoop py lc vb iw (pre @ keyword # post) nodes mid)"
  proof
    assume sc: "scanned vb nd"
    have "keyword \<in> set (pre @ keyword # post)" by simp
    from nodeLoop_scanned [OF sc tx this assms(1,2)]
    show "nodeLoop py lc vb iw (pre @ keyword # post) (nd # nodes) acc =
              (case keywordLoop py lc vb iw nd (pre @ keyword # post) acc of
                 None \<Rightarrow> None
               | Some mid \<Rightarrow>
                   if length mid > 300 then Some mid
                   else nodeLoop py lc vb iw (pre @ keyword # post) nodes mid)" .
  qed
  have k1: "keywordLoop py lc vb iw nd [keyword] [] = Some (directMatches lc vb iw nd keyword)"
    using kd [where py = py and vb = vb and iw = iw and kws = "[]" and acc = "[]"] by simp
  have three: "findVisibleMatchesWithPinyin py lc vb iw [nd] [keyword] =
           Some (if scanned vb nd then directMatches lc vb iw nd keyword else [])"
  proof (cases "scanned vb nd")
    case True
    have "keyword \<in> set [keyword]" by simp
    from nodeLoop_scanned [OF True tx this assms(1,2), where py = py and iw = iw
        and nodes = "[]" and acc = "[]"]
    show ?thesis using True by (simp only: findVisibleMatchesWithPinyin_def k1) simp
  next
    case False
    have em: "enhancedMatch py lc (nodeValue nd) [keyword] = Some True"
      using tx assms(1,2) by (simp add: enhancedMatch_def)
    from False have "\<not> hasParent nd \<or> inTags nd \<or> (\<not> hasContainer nd \<and> \<not> isInsertBtn nd) \<or>
        parentRect_bottom nd < 0 \<or> parentRect_top nd > vb"
      by (auto simp: scanned_def)
    then have "nodeLoop py lc vb iw [keyword] [nd] [] = Some []"
      using em tx by (auto simp del: keywordLoop.simps)
    with False show ?thesis by (simp add: findVisibleMatchesWithPinyin_def)
  qed
  note dm = directMatches_same_length [OF assms(3,4)]
  have four: "map index (directMatches lc vb iw nd keyword) =
           map int (filter (\<lambda>k. firstRectVisible vb iw nd (int k) (int k + int (length keyword)))
                      (occurrences (lc (nodeValue nd)) (lc keyword)))"
    by (simp add: dm directMatch_def)
  have five: "\<forall>m\<in>set (directMatches lc vb iw nd keyword).
            node m = nd \<and> length_m m = int (length keyword) \<and>
            map_option type_m (pinyinMatch m) = Some Direct"
    by (auto simp: directMatches_def directMatch_def)
  from one two three four five show ?thesis by (intro conjI)
qed

text \<open>
  The keyword \<open>a\<close> on the text \<open>A a\<close>, each unit rendered 100 pixels below the one
  before: with a viewport 150 high only the occurrence at offset 0 is rendered inside,
  with one 300 high both are.
\<close>

theorem collector_direct_exclusive_witness:
  "findVisibleMatchesWithPinyin samplePinyin sampleLower 150 1000 [columnNode ''A a''] [''a''] =
     Some (directMatches sampleLower 150 1000 (columnNode ''A a'') ''a'') \<and>
   map index (directMatches sampleLower 150 1000 (columnNode ''A a'') ''a'') = [0] \<and>
   map index (directMatches sampleLower 300 1000 (columnNode ''A a'') ''a'') = [0, 2]"
proof -
  have k: "''a'' \<noteq> []" by simp
  have i: "includes_s (sampleLower (nodeValue (columnNode ''A a''))) (sampleLower ''a'')"
    by code_simp
  have l: "length (sampleLower (nodeValue (columnNode ''A a''))) =
           length (nodeValue (columnNode ''A a''))"
    "length (sampleLower ''a'') = length ''a''"
    by code_simp+
  have o: "occurrences (sampleLower (nodeValue (columnNode ''A a''))) (sampleLower ''a'') = [0, 2]"
    by code_simp
  have s: "scanned 150 (columnNode ''A a'')"
    by (simp add: scanned_def columnNode_def)
  have v: "firstRectVisible 150 1000 (columnNode ''A a'') 0 (0 + int (length ''a''))"
    "\<not> firstRectVisible 150 1000 (columnNode ''A a'') 2 (2 + int (length ''a''))"
    "firstRectVisible 300 1000 (columnNode ''A a'') 0 (0 + int (length ''a''))"
    "firstRectVisible 300 1000 (columnNode ''A a'') 2 (2 + int (length ''a''))"
    by (simp_all add: firstRectVisible_def columnNode_def inViewport_def)
  from collector_direct_exclusive [OF k i l, where py = samplePinyin and vb = 150
      and iw = 1000 and pre = "[]" and post = "[]" and acc = "[]" and nodes = "[]"]
    collector_direct_exclusive [OF k i l, where py = samplePinyin and vb = 300
      and iw = 1000 and pre = "[]" and post = "[]" and acc = "[]" and nodes = "[]"]
  show ?thesis unfolding o using v s by simp
qed

text \<open>
  Claim C4 as stated asks for one candidate per occurrence. The keyword \<open>a\<close> occurs
  at the offsets 0 and 2 of \<open>a a\<close>; the second occurrence is rendered below a viewport
  150 high, and the collector returns the candidate at offset 0 only.
\<close>

theorem direct_occurrence_counterexample:
  "occurrences (sampleLower ''a a'') (sampleLower ''a'') = [0, 2] \<and>
   map_option (map index)
     (findVisibleMatchesWithPinyin samplePinyin sampleLower 150 1000 [columnNode ''a a''] [''a'']) =
   Some [0]"
  by code_simp

text \<open>
  Where lower-casing lengthens the text the offsets are still those of the lower-cased
  text, and the test in front of the range is against the length of the text itself.
  \<open>U+0130\<close> twice and then \<open>a\<close>: the keyword \<open>a\<close> is found at offset 4 of the
  lower-cased text, beyond the three units of the text, and no candidate is made.
  \<open>U+0130\<close>, \<open>a\<close>, \<open>b\<close>: it is found at offset 2, and the candidate lies on the
  \<open>b\<close>.
\<close>

lemma direct_offsets_of_lowered_text:
  "map_option (map (\<lambda>m. (index m, length_m m)))
     (findVisibleMatchesWithPinyin samplePinyin sampleLower 1500 1000
        [columnNode [CHR 0x80, CHR 0x80, CHR ''a'']] [''a'']) = Some [] \<and>
   map_option (map (\<lambda>m. (index m, length_m m)))
     (findVisibleMatchesWithPinyin samplePinyin sampleLower 1500 1000
        [columnNode [CHR 0x80, CHR ''a'', CHR ''b'']] [''a'']) = Some [(2, 1)]"
  by code_simp

text \<open>
  Claim C6. Every candidate the collector returns has \<open>0 \<le> index\<close>, a length that
  is not negative, and \<open>index + length\<close> at most the length of the text of its node,
  whatever the lower-casing is; and for query tokens the collector does return, given
  the two facts about \<open>toLowerCase\<close>.
\<close>

theorem findVisibleMatchesWithPinyin_in_bounds:
  "(\<forall>ms. findVisibleMatchesWithPinyin py lc vb iw nodes kws = Some ms \<longrightarrow>
         (\<forall>m\<in>set ms. 0 \<le> index m \<and> 0 \<le> length_m m \<and>
                       index m + length_m m \<le> int (length (nodeValue (node m))))) \<and>
   (lowerCasing lc \<and> (\<forall>k\<in>set kws. queryToken k) \<longrightarrow>
      findVisibleMatchesWithPinyin py lc vb iw nodes kws \<noteq> None)"
proof (intro conjI allI impI)
  fix ms assume "findVisibleMatchesWithPinyin py lc vb iw nodes kws = Some ms"
  then have "nodeLoop py lc vb iw kws nodes [] = Some ms"
    by (simp add: findVisibleMatchesWithPinyin_def)
  from nodeLoop_inBounds [OF this]
  show "\<forall>m\<in>set ms. 0 \<le> index m \<and> 0 \<le> length_m m \<and>
                   index m + length_m m \<le> int (length (nodeValue (node m)))"
    by (simp add: inBounds_def)
next
  assume a: "lowerCasing lc \<and> (\<forall>k\<in>set kws. queryToken k)"
  then have "\<forall>k\<in>set kws. k = [] \<or> queryToken k" by simp
  from nodeLoop_returns [OF _ this, where py = py and vb = vb and iw = iw and nodes = nodes
      and acc = "[]"] a
  show "findVisibleMatchesWithPinyin py lc vb iw nodes kws \<noteq> None"
    by (auto simp: findVisibleMatchesWithPinyin_def)
qed

text \<open>
  Two tokens against a text of three units.
\<close>

theorem findVisibleMatchesWithPinyin_in_bounds_witness:
  "queryToken ''nihao'' \<and> queryToken ''ha'' \<and>
   findVisibleMatchesWithPinyin samplePinyin sampleLower 1500 1000
     [columnNode [CHR ''x'', CHR 0xC4, CHR 0xBA]] [''nihao'', ''ha''] \<noteq> None \<and>
   list_all (\<lambda>m. 0 \<le> index m \<and> 0 \<le> length_m m \<and>
                  index m + length_m m \<le> int (length (nodeValue (node m))))
     (the (findVisibleMatchesWithPinyin samplePinyin sampleLower 1500 1000
             [columnNode [CHR ''x'', CHR 0xC4, CHR 0xBA]] [''nihao'', ''ha'']))"
proof -
  have t: "queryToken ''nihao''" "queryToken ''ha''"
    by (simp_all add: queryToken_def isSpace_def)
  note b = findVisibleMatchesWithPinyin_in_bounds
    [where py = samplePinyin and lc = sampleLower and vb = 1500 and iw = 1000
       and nodes = "[columnNode [CHR ''x'', CHR 0xC4, CHR 0xBA]]"
       and kws = "[''nihao'', ''ha'']"]
  from b t lowerCasing_sampleLower obtain ms where
    ms: "findVisibleMatchesWithPinyin samplePinyin sampleLower 1500 1000
     [columnNode [CHR ''x'', CHR 0xC4, CHR 0xBA]] [''nihao'', ''ha''] = Some ms"
    by auto
  with b have "\<forall>m\<in>set ms. 0 \<le> index m \<and> 0 \<le> length_m m \<and>
                 index m + length_m m \<le> int (length (nodeValue (node m)))"
    by blast
  with ms t show ?thesis by (simp add: list_all_iff)
qed

text \<open>
  There, \<open>ha\<close> matches the romanized form at offset 5, beyond the three units of
  the text: no candidate is made of it.
\<close>

lemma romanized_offset_dropped:
  "matchPinyin samplePinyin sampleLower [CHR ''x'', CHR 0xC4, CHR 0xBA] ''ha'' =
     Some (Some (outcome Pinyin (Some ''x ni hao'') [CHR ''x'', CHR 0xC4, CHR 0xBA] [5])) \<and>
   map_option (map (\<lambda>m. (index m, length_m m)))
     (findVisibleMatchesWithPinyin samplePinyin sampleLower 1500 1000
        [columnNode [CHR ''x'', CHR 0xC4, CHR 0xBA]] [''nihao'', ''ha'']) = Some [(1, 2)]"
  by code_simp

text \<open>
  Claim C8, as amended. The collector visits the nodes in order and tests the number of
  candidates after the work on a node. Take the result \<open>ms\<close> on a document. If it has
  more than 300 candidates, it stays the result whatever nodes follow: no further node
  is visited. If it has at most 300, exactly 300 included, a node that follows is
  visited, and the result is then all that the work on that node leaves, nothing cut
  off. So a result of more than 300 candidates is what the work on one node left,
  complete, on top of the at most 300 candidates of the nodes before it. On the empty
  document the result is empty.
\<close>

theorem collector_stops_beyond_300:
  assumes "findVisibleMatchesWithPinyin py lc vb iw nodes kws = Some ms"
  shows "(length ms > 300 \<longrightarrow>
            findVisibleMatchesWithPinyin py lc vb iw (nodes @ later) kws = Some ms) \<and>
         (length ms \<le> 300 \<longrightarrow>
            findVisibleMatchesWithPinyin py lc vb iw (nodes @ [nd]) kws =
              spanCandidates py lc vb iw kws nd ms) \<and>
         (length ms > 300 \<longrightarrow>
            (\<exists>ns1 nd' ns2 ms0. nodes = ns1 @ nd' # ns2 \<and>
               findVisibleMatchesWithPinyin py lc vb iw ns1 kws = Some ms0 \<and>
               length ms0 \<le> 300 \<and>
               spanCandidates py lc vb iw kws nd' ms0 = Some ms)) \<and>
         findVisibleMatchesWithPinyin py lc vb iw [] kws = Some []"
proof -
  from assms have n: "nodeLoop py lc vb iw kws nodes [] = Some ms"
    by (simp add: findVisibleMatchesWithPinyin_def)
  have one: "length ms > 300 \<longrightarrow> nodeLoop py lc vb iw kws (nodes @ later) [] = Some ms"
    using nodeLoop_stop [OF n] by simp
  have two: "length ms \<le> 300 \<longrightarrow>
      nodeLoop py lc vb iw kws (nodes @ [nd]) [] = spanCandidates py lc vb iw kws nd ms"
    using nodeLoop_continue [OF n, where ?ns2.0 = "[nd]"] by (simp only: nodeLoop_single) simp
  have three: "length ms > 300 \<longrightarrow>
            (\<exists>ns1 nd' ns2 ms0. nodes = ns1 @ nd' # ns2 \<and>
               nodeLoop py lc vb iw kws ns1 [] = Some ms0 \<and>
               length ms0 \<le> 300 \<and>
               spanCandidates py lc vb iw kws nd' ms0 = Some ms)"
    using nodeLoop_last_span [OF n] by simp
  from one two three show ?thesis by (simp add: findVisibleMatchesWithPinyin_def)
qed

text \<open>
  Lines of letters \<open>a\<close>, all in the viewport, and the keyword \<open>a\<close>. After a line
  of 301 a second line is not visited. After a line of 300 a line of one is visited,
  and after a line of 5 a line of 301 is visited and gives all its 301 candidates.
\<close>

theorem collector_stops_beyond_300_witness:
  "findVisibleMatchesWithPinyin samplePinyin sampleLower 1000 2560
     ([rowNode 301] @ [rowNode 5]) [''a''] =
     Some (map (directMatch (rowNode 301) ''a'') [0..<301]) \<and>
   findVisibleMatchesWithPinyin samplePinyin sampleLower 1000 2560
     ([rowNode 300] @ [rowNode 1]) [''a''] =
     Some (map (directMatch (rowNode 300) ''a'') [0..<300] @
           map (directMatch (rowNode 1) ''a'') [0..<1]) \<and>
   findVisibleMatchesWithPinyin samplePinyin sampleLower 1000 2560
     ([rowNode 5] @ [rowNode 301]) [''a''] =
     Some (map (directMatch (rowNode 5) ''a'') [0..<5] @
           map (directMatch (rowNode 301) ''a'') [0..<301])"
proof -
  have r301: "findVisibleMatchesWithPinyin samplePinyin sampleLower 1000 2560 [rowNode 301] [''a'']
              = Some (map (directMatch (rowNode 301) ''a'') [0..<301])"
    by (simp add: rowNode_collected)
  have r300: "findVisibleMatchesWithPinyin samplePinyin sampleLower 1000 2560 [rowNode 300] [''a'']
              = Some (map (directMatch (rowNode 300) ''a'') [0..<300])"
    by (simp add: rowNode_collected)
  have r5: "findVisibleMatchesWithPinyin samplePinyin sampleLower 1000 2560 [rowNode 5] [''a'']
            = Some (map (directMatch (rowNode 5) ''a'') [0..<5])"
    by (simp add: rowNode_collected)
  have s1: "spanCandidates samplePinyin sampleLower 1000 2560 [''a''] (rowNode 1) acc =
            Some (acc @ map (directMatch (rowNode 1) ''a'') [0..<1])" for acc
    by (rule rowNode_span) simp_all
  have s301: "spanCandidates samplePinyin sampleLower 1000 2560 [''a''] (rowNode 301) acc =
              Some (acc @ map (directMatch (rowNode 301) ''a'') [0..<301])" for acc
    by (rule rowNode_span) simp_all
  from collector_stops_beyond_300 [OF r301, where later = "[rowNode 5]"]
  have a: "findVisibleMatchesWithPinyin samplePinyin sampleLower 1000 2560
     ([rowNode 301] @ [rowNode 5]) [''a''] =
     Some (map (directMatch (rowNode 301) ''a'') [0..<301])"
    by simp
  from collector_stops_beyond_300 [OF r300, where nd = "rowNode 1"]
  have b: "findVisibleMatchesWithPinyin samplePinyin sampleLower 1000 2560
     ([rowNode 300] @ [rowNode 1]) [''a''] =
     Some (map (directMatch (rowNode 300) ''a'') [0..<300] @
           map (directMatch (rowNode 1) ''a'') [0..<1])"
    by (simp only: s1 length_map length_upt)
  from collector_stops_beyond_300 [OF r5, where nd = "rowNode 301"]
  have c: "findVisibleMatchesWithPinyin samplePinyin sampleLower 1000 2560
     ([rowNode 5] @ [rowNode 301]) [''a''] =
     Some (map (directMatch (rowNode 5) ''a'') [0..<5] @
           map (directMatch (rowNode 301) ''a'') [0..<301])"
    by (simp only: s301 length_map length_upt)
  from a b c show ?thesis by (intro conjI)
qed

text \<open>
  Claim C8 as stated fails on one line of 301 letters, all in the viewport: the keyword
  \<open>a\<close> gives 301 candidates.
\<close>

theorem collector_cap_counterexample:
  "map_option length
     (findVisibleMatchesWithPinyin samplePinyin sampleLower 1000 2560 [rowNode 301] [''a''])
   = Some 301"
  by (simp add: rowNode_collected)

end
